theory Spec2Isabelle
  imports Complex_Main "HOL-Library.Log_Nat"
begin

chapter \<open>The mosaic generator: model\<close>

section \<open>JavaScript numbers\<close>

text \<open>
  Every JavaScript number is an IEEE 754 binary64 value, and every arithmetic operator
  rounds its exact result to the nearest such value, ties to even. A finite number is
  modelled by the rational it denotes; \<open>fl\<close> is the rounding applied after each operation:
  \<open>binexp q\<close> is the binary exponent \<open>e\<close> of \<open>q > 0\<close> (\<open>2^e \<le> q < 2^(e+1)\<close>), the spacing of
  the 53-bit significands at that exponent is \<open>2^(e-52)\<close>, and \<open>q\<close> is rounded to the nearest
  multiple of it. The exponent range is not bounded in the model: overflow to infinity
  and gradual underflow do not arise for the quantizer on colour components in
  \<open>[0, 255]\<close> and palette sizes below \<open>2^53\<close>, where every intermediate value is \<open>0\<close>
  or lies between \<open>2^-53\<close> and \<open>2^53\<close>. Negative zero is identified with zero.
\<close>

definition binexp :: "rat \<Rightarrow> int" where
  "binexp q = (if 1 \<le> q then bitlen \<lfloor>q\<rfloor> - 1 else - bitlen (\<lceil>1 / q\<rceil> - 1))"

definition roundEven :: "rat \<Rightarrow> int" where
  "roundEven q =
     (let f = \<lfloor>q\<rfloor>; r = q - of_int f
      in if r < 1 / 2 then f else if 1 / 2 < r then f + 1 else if even f then f else f + 1)"

definition fl :: "rat \<Rightarrow> rat" where
  "fl q = (if q = 0 then 0
           else let u = 2 powi (binexp \<bar>q\<bar> - 52) in of_int (roundEven (q / u)) * u)"

text \<open>
  \<open>NaN\<close> is what arithmetic yields on \<open>undefined\<close> (a read past the end of the pixel
  buffer) and for \<open>0 / 0\<close>. The only divisors in this program are \<open>255\<close> and the palette
  size; when the palette size is \<open>0\<close> the dividend \<open>Math.floor(c / 255 * 0)\<close> is \<open>0\<close> or
  \<open>NaN\<close>, so a division by zero here is always \<open>0 / 0\<close> or \<open>NaN / 0\<close>, never an infinity.
\<close>

datatype jsnum = Num rat | NaN

fun jmul :: "jsnum \<Rightarrow> jsnum \<Rightarrow> jsnum" where
  "jmul (Num p) (Num q) = Num (fl (p * q))"
| "jmul _ _ = NaN"

fun jdiv :: "jsnum \<Rightarrow> jsnum \<Rightarrow> jsnum" where
  "jdiv (Num p) (Num q) = (if q = 0 then NaN else Num (fl (p / q)))"
| "jdiv _ _ = NaN"

text \<open>\<open>Math.floor\<close> yields an integer (or \<open>NaN\<close>, here \<open>None\<close>); an integer is a number again.\<close>

fun jfloor :: "jsnum \<Rightarrow> int option" where
  "jfloor (Num q) = Some \<lfloor>q\<rfloor>"
| "jfloor NaN = None"

fun jnum :: "int option \<Rightarrow> jsnum" where
  "jnum (Some k) = Num (of_int k)"
| "jnum None = NaN"

datatype js_error = TypeError string | IndexSizeError | Error string

section \<open>The quantizer (worker script)\<close>

text \<open>
  \<^verbatim>\<open>component.toString(16)\<close> of an integer: lower-case hexadecimal digits, most significant
  first, with a leading minus sign for a negative integer; \<open>NaN\<close> prints as \<open>NaN\<close>.
\<close>

definition hexDigit :: "nat \<Rightarrow> char" where
  "hexDigit d = ''0123456789abcdef'' ! d"

function toHexDigits :: "nat \<Rightarrow> string" where
  "toHexDigits n = (if n < 16 then [hexDigit n] else toHexDigits (n div 16) @ [hexDigit (n mod 16)])"
  by pat_completeness auto
termination
  by (relation "measure id") auto

declare toHexDigits.simps [simp del]

definition toString16 :: "int option \<Rightarrow> string" where
  "toString16 c =
     (case c of
        None \<Rightarrow> ''NaN''
      | Some v \<Rightarrow> if v < 0 then CHR ''-'' # toHexDigits (nat (- v)) else toHexDigits (nat v))"

text \<open>
  \<^verbatim>\<open>MosaicWorker.prototype.convertToHex = function (component) {
    var hex = component.toString(16)
    return hex.length === 1 ? '0' + hex : hex }\<close>
\<close>

definition convertToHex :: "int option \<Rightarrow> string" where
  "convertToHex component =
     (let hex = toString16 component in if length hex = 1 then ''0'' @ hex else hex)"

text \<open>
  \<^verbatim>\<open>r = Math.floor((Math.floor(r / 255 * colors) / colors) * 255)\<close>, the same expression
  for \<open>g\<close> and \<open>b\<close>. The operators associate to the left and each one rounds.
\<close>

definition reduceComponent :: "jsnum \<Rightarrow> jsnum \<Rightarrow> int option" where
  "reduceComponent c colors =
     jfloor (jmul (jdiv (jnum (jfloor (jmul (jdiv c (Num 255)) colors))) colors) (Num 255))"

definition rgbToHex :: "jsnum \<Rightarrow> jsnum \<Rightarrow> jsnum \<Rightarrow> jsnum \<Rightarrow> string" where
  "rgbToHex r g b colors =
     (let r' = reduceComponent r colors;
          g' = reduceComponent g colors;
          b' = reduceComponent b colors
      in convertToHex r' @ convertToHex g' @ convertToHex b')"

text \<open>
  The reduction of a component read in two steps: \<open>bucket c n\<close> is
  \<open>Math.floor(c / 255 * n)\<close> and \<open>rescale k n\<close> is \<open>Math.floor(k / n * 255)\<close>, each with
  the rounding of every operator. \<open>twoHexDigits v\<close> is the fixed-width rendering of
  a byte the format asks for: two lower-case hexadecimal digits, the first one \<open>0\<close>
  for a value below 16.
\<close>

definition bucket :: "rat \<Rightarrow> rat \<Rightarrow> int" where
  "bucket c n = \<lfloor>fl (fl (c / 255) * n)\<rfloor>"

definition rescale :: "int \<Rightarrow> rat \<Rightarrow> int" where
  "rescale k n = \<lfloor>fl (fl (of_int k / n) * 255)\<rfloor>"

text \<open>
  The formula \<open>floor((floor(c / 255 * n) / n) * 255)\<close> read as it is written, in exact
  arithmetic, without the rounding of the operators.
\<close>

definition exactReduced :: "rat \<Rightarrow> rat \<Rightarrow> int" where
  "exactReduced c n = \<lfloor>(of_int \<lfloor>c / 255 * n\<rfloor> / n) * 255\<rfloor>"

definition twoHexDigits :: "nat \<Rightarrow> string" where
  "twoHexDigits v = [hexDigit (v div 16), hexDigit (v mod 16)]"

text \<open>
  The pixel buffer \<open>img.data\<close> holds bytes, four per pixel. A read past its end is
  \<open>undefined\<close>, which the arithmetic of \<open>rgbToHex\<close> turns into \<open>NaN\<close>.
  \<^verbatim>\<open>for (i = 0; i < length; i += 4) {
    data.push(this.rgbToHex(img.data[i], img.data[i + 1], img.data[i + 2], colors)) }\<close>
\<close>

record imageData =
  data :: "nat list"

definition byteAt :: "nat list \<Rightarrow> nat \<Rightarrow> jsnum" where
  "byteAt d k = (if k < length d then Num (of_nat (d ! k)) else NaN)"

function getColorMap_loop :: "nat list \<Rightarrow> jsnum \<Rightarrow> nat \<Rightarrow> string list \<Rightarrow> string list" where
  "getColorMap_loop d colors k acc =
     (if k < length d
      then getColorMap_loop d colors (k + 4)
             (acc @ [rgbToHex (byteAt d k) (byteAt d (k + 1)) (byteAt d (k + 2)) colors])
      else acc)"
  by pat_completeness auto
termination
  by (relation "measure (\<lambda>(d, colors, k, acc). length d - k)") auto

declare getColorMap_loop.simps [simp del]

definition MosaicWorker_getColorMap :: "imageData \<Rightarrow> jsnum \<Rightarrow> string list" where
  "MosaicWorker_getColorMap img colors = getColorMap_loop (data img) colors 0 []"

text \<open>
  The worker's message handler: the reply posted for a message \<open>{img, colors}\<close>.
\<close>

definition onmessage :: "imageData \<Rightarrow> jsnum \<Rightarrow> string list" where
  "onmessage img colors = MosaicWorker_getColorMap img colors"

section \<open>The quantization coordinator (js/mosaic.js)\<close>

text \<open>
  \<^verbatim>\<open>Mosaic.prototype.getColorMap = function (img, colors) {
    if (window.Worker) {
      ... return waitForWorker          // a promise resolved with the worker's reply
    } else {
      var MosaicWorker = new MosaicWorker()
      return MosaicWorker.getColorMap(img, colors) } }\<close>
  A \<open>var\<close> declaration belongs to the whole function body and its variable is
  \<open>undefined\<close> until the assignment has run. The right-hand side \<open>new MosaicWorker()\<close>
  therefore reads the local variable, not the global constructor of the same name.
  The value returned is either a promise for a colour list or a plain colour list.
\<close>

datatype 'c binding = Undefined | Bound 'c

datatype worker = MosaicWorkerObject

definition js_new :: "worker binding \<Rightarrow> js_error + worker" where
  "js_new b = (case b of
                 Undefined \<Rightarrow> Inl (TypeError ''MosaicWorker is not a constructor'')
               | Bound w \<Rightarrow> Inr w)"

datatype 'v returned = Promise 'v | Plain 'v

definition Mosaic_getColorMap :: "bool \<Rightarrow> imageData \<Rightarrow> jsnum \<Rightarrow> js_error + string list returned" where
  "Mosaic_getColorMap hasWorker img colors =
     (if hasWorker then Inr (Promise (onmessage img colors))
      else
        (let MosaicWorker = Undefined
         in case js_new MosaicWorker of
              Inl e \<Rightarrow> Inl e
            | Inr w \<Rightarrow> Inr (Plain (MosaicWorker_getColorMap img colors))))"

section \<open>Pixel map (js/mosaic.js)\<close>

text \<open>
  JavaScript objects \<open>{x, y}\<close> (sizes, grid dimensions, offsets) and \<open>{color, x, y}\<close>
  (pixel map entries) are records. A pixel map entry is an object: \<open>===\<close> and \<open>indexOf\<close>
  compare object references, not contents. Entries are never mutated after their
  creation, so an entry is modelled by its fields together with its identity \<open>oid\<close>;
  every evaluation of an object literal yields a fresh identity, and equality of
  the records is equality of references.
\<close>

record 'n xy =
  x :: 'n
  y :: 'n

record pixel = "nat xy" +
  color :: string
  oid :: nat

text \<open>
  The callback of \<open>tileColors.map\<close> in \<open>getPixelMap\<close>:
  \<^verbatim>\<open>{ color: color, x: (i % size.x) + 1, y: Math.floor(i / size.x) + 1 }\<close>.
  The i-th call allocates the i-th object. For \<open>size.x = 0\<close> JavaScript computes
  \<open>NaN\<close> coordinates; the canvas refuses a zero-sized \<open>getImageData\<close> before that
  (see \<open>getPixelMap\<close>), so the callback is only reached with \<open>size.x > 0\<close>.
\<close>

definition pixelEntry :: "nat xy \<Rightarrow> string \<Rightarrow> nat \<Rightarrow> pixel" where
  "pixelEntry sz c i = \<lparr> x = (i mod x sz) + 1, y = (i div x sz) + 1, color = c, oid = i \<rparr>"

definition mapIndexed :: "('a \<Rightarrow> nat \<Rightarrow> 'b) \<Rightarrow> 'a list \<Rightarrow> 'b list" where
  "mapIndexed f xs = map (\<lambda>(v, i). f v i) (zip xs [0..<length xs])"

definition pixelEntries :: "nat xy \<Rightarrow> string list \<Rightarrow> pixel list" where
  "pixelEntries sz tileColors = mapIndexed (pixelEntry sz) tileColors"

text \<open>
  \<open>getPixelMap\<close> draws the image on a canvas of the grid's size, reads the canvas back
  (\<open>img\<close> is what \<open>getImageData\<close> returned; the canvas throws \<open>IndexSizeError\<close> for a
  zero width or height), asks the coordinator for the colour list and calls \<open>.then\<close>
  on what it gets, which only a promise has.
\<close>

definition getPixelMap :: "bool \<Rightarrow> nat xy \<Rightarrow> imageData \<Rightarrow> jsnum \<Rightarrow> js_error + pixel list returned" where
  "getPixelMap hasWorker sz img colors =
     (if x sz = 0 \<or> y sz = 0 then Inl IndexSizeError
      else case Mosaic_getColorMap hasWorker img colors of
             Inl e \<Rightarrow> Inl e
           | Inr (Plain tileColors) \<Rightarrow> Inl (TypeError ''then is not a function'')
           | Inr (Promise tileColors) \<Rightarrow> Inr (Promise (pixelEntries sz tileColors)))"

text \<open>The row-major enumeration of the grid cells, rows and columns counted from 1.\<close>

definition rowMajor :: "nat \<Rightarrow> nat \<Rightarrow> (nat \<times> nat) list" where
  "rowMajor gx gy = concat (map (\<lambda>r. map (\<lambda>c. (c, r)) [1..<gx + 1]) [1..<gy + 1])"

section \<open>The keys handed to the loader\<close>

text \<open>
  \<^verbatim>\<open>function unique (value, index, self) { return self.indexOf(value) === index }\<close>
  \<open>indexOf\<close> is the first index holding a value strictly equal to the one sought, or
  \<open>-1\<close>; \<open>filter\<close> passes value, index and the array itself to its callback.
  \<^verbatim>\<open>var uniqueMap = pixelMap.filter(unique)
  var uniqueColors = uniqueMap.map(function (pixel) { return pixel.color })\<close>
\<close>

fun indexOfFrom :: "nat \<Rightarrow> 'a list \<Rightarrow> 'a \<Rightarrow> int" where
  "indexOfFrom k [] v = - 1"
| "indexOfFrom k (a # as) v = (if a = v then int k else indexOfFrom (Suc k) as v)"

definition indexOf :: "'a list \<Rightarrow> 'a \<Rightarrow> int" where
  "indexOf self v = indexOfFrom 0 self v"

definition unique :: "'a \<Rightarrow> nat \<Rightarrow> 'a list \<Rightarrow> bool" where
  "unique v index self \<longleftrightarrow> indexOf self v = int index"

definition filterIndexed :: "('a \<Rightarrow> nat \<Rightarrow> 'a list \<Rightarrow> bool) \<Rightarrow> 'a list \<Rightarrow> 'a list" where
  "filterIndexed f xs = map fst (filter (\<lambda>(v, i). f v i xs) (zip xs [0..<length xs]))"

definition uniqueColors :: "pixel list \<Rightarrow> string list" where
  "uniqueColors pixelMap = (let uniqueMap = filterIndexed unique pixelMap in map color uniqueMap)"

section \<open>Progressive row rendering (js/mosaic.js, \<open>create\<close>)\<close>

definition TILE_WIDTH :: nat where "TILE_WIDTH = 8"
definition TILE_HEIGHT :: nat where "TILE_HEIGHT = 8"

text \<open>
  A tile image is an \<open>Image\<close> element: its source and its \<open>complete\<close> property.
  \<open>completeTiles\<close> is the object mapping a colour key to its loaded image.
\<close>

record image =
  src :: string
  complete :: bool

type_synonym tiles = "string \<rightharpoonup> image"

text \<open>
  \<^verbatim>\<open>findCurrentRow = function (pixelMap, currentRowIndex) {
    return pixelMap.filter(function (pixel) { return pixel.y === currentRowIndex }) }\<close>
  \<^verbatim>\<open>currentRowDownloaded = function (currentRow, completeTiles) {
    return !currentRow.some(function (elem) {
      return !(completeTiles[elem.color] && completeTiles[elem.color].complete) }) }\<close>
\<close>

definition findCurrentRow :: "pixel list \<Rightarrow> nat \<Rightarrow> pixel list" where
  "findCurrentRow pixelMap currentRowIndex = filter (\<lambda>pixel. y pixel = currentRowIndex) pixelMap"

definition currentRowDownloaded :: "pixel list \<Rightarrow> tiles \<Rightarrow> bool" where
  "currentRowDownloaded currentRow completeTiles \<longleftrightarrow>
     \<not> list_ex (\<lambda>elem. \<not> (case completeTiles (color elem) of
                                None \<Rightarrow> False
                              | Some im \<Rightarrow> complete im)) currentRow"

text \<open>
  One call of \<open>context.drawImage\<close>: the image passed (\<open>None\<close> for \<open>undefined\<close>), the
  target coordinates \<open>offset + (pixel - 1) * tile size\<close>, and the pixel map entry the
  call paints.
\<close>

record drawImage =
  tile :: "image option"
  dx :: rat
  dy :: rat
  cell :: pixel

definition drawTile :: "rat xy \<Rightarrow> tiles \<Rightarrow> pixel \<Rightarrow> drawImage" where
  "drawTile offset completeTiles pixel =
     \<lparr> tile = completeTiles (color pixel),
       dx = x offset + (of_nat (x pixel) - 1) * of_nat TILE_WIDTH,
       dy = y offset + (of_nat (y pixel) - 1) * of_nat TILE_HEIGHT,
       cell = pixel \<rparr>"

text \<open>
  The variables of \<open>create\<close> that \<open>renderCompleteRows\<close> and the image handlers share,
  and the list of paint calls made so far. \<open>pixelMap\<close> and \<open>offset\<close> never change.
\<close>

record renderState =
  currentRowIndex :: nat
  currentRow :: "pixel list"
  completeTiles :: tiles
  painted :: "drawImage list"

definition maxRow :: "pixel list \<Rightarrow> nat" where
  "maxRow pixelMap = foldr (\<lambda>p m. max (y p) m) pixelMap 0"

definition paintCurrentRow :: "pixel list \<Rightarrow> rat xy \<Rightarrow> renderState \<Rightarrow> renderState" where
  "paintCurrentRow pixelMap offset s =
     (let s1 = s\<lparr> painted := painted s @ map (drawTile offset (completeTiles s)) (currentRow s) \<rparr>;
          s2 = s1\<lparr> currentRowIndex := currentRowIndex s1 + 1 \<rparr>
      in s2\<lparr> currentRow := findCurrentRow pixelMap (currentRowIndex s2) \<rparr>)"

lemma maxRow_ge: "p \<in> set pixelMap \<Longrightarrow> y p \<le> maxRow pixelMap"
  by (induction pixelMap) (auto simp: maxRow_def)

text \<open>
  \<^verbatim>\<open>var renderCompleteRows = function () {
    if (!self.currentRowDownloaded(currentRow, completeTiles)) { return }
    currentRow.forEach(function (pixel) { context.drawImage(...) })
    currentRowIndex++
    currentRow = self.findCurrentRow(pixelMap, currentRowIndex)
    if (currentRow.length === 0) { return }
    renderCompleteRows() }\<close>
  The recursion stops at the first row index without entries, at the latest above
  the largest \<open>y\<close> of the pixel map.
\<close>

function renderCompleteRows :: "pixel list \<Rightarrow> rat xy \<Rightarrow> renderState \<Rightarrow> renderState" where
  "renderCompleteRows pixelMap offset s =
     (if \<not> currentRowDownloaded (currentRow s) (completeTiles s) then s
      else
        let s' = paintCurrentRow pixelMap offset s
        in if length (currentRow s') = 0 then s' else renderCompleteRows pixelMap offset s')"
  by pat_completeness auto
termination
proof (relation "measure (\<lambda>(pixelMap, offset, s). Suc (maxRow pixelMap) - currentRowIndex s)")
  show "wf (measure (\<lambda>(pixelMap, offset, s). Suc (maxRow pixelMap) - currentRowIndex s))"
    by simp
next
  fix pixelMap :: "pixel list" and offset :: "rat xy" and s s' :: renderState
  assume s': "s' = paintCurrentRow pixelMap offset s"
    and nonempty: "length (currentRow s') \<noteq> 0"
  from s' have idx: "currentRowIndex s' = currentRowIndex s + 1"
    and row: "currentRow s' = findCurrentRow pixelMap (currentRowIndex s + 1)"
    by (simp_all add: paintCurrentRow_def Let_def)
  from nonempty row have "findCurrentRow pixelMap (currentRowIndex s + 1) \<noteq> []"
    by simp
  then have "hd (findCurrentRow pixelMap (currentRowIndex s + 1))
      \<in> set (findCurrentRow pixelMap (currentRowIndex s + 1))"
    by (rule hd_in_set)
  then obtain p where "p \<in> set (findCurrentRow pixelMap (currentRowIndex s + 1))" ..
  then have "p \<in> set pixelMap" and "y p = currentRowIndex s + 1"
    by (simp_all add: findCurrentRow_def)
  then have "currentRowIndex s + 1 \<le> maxRow pixelMap"
    using maxRow_ge by metis
  with idx show "((pixelMap, offset, s'), (pixelMap, offset, s))
      \<in> measure (\<lambda>(pixelMap, offset, s). Suc (maxRow pixelMap) - currentRowIndex s)"
    by simp
qed

declare renderCompleteRows.simps [simp del]

text \<open>
  What happens to these variables during a render pass, in the order the browser
  chooses: the \<open>onload\<close> handler of a tile image stores the image under its colour
  and calls \<open>renderCompleteRows\<close> (the loader's own bookkeeping, \<open>cb(false, image)\<close>,
  does not touch them); the loader's final callback calls \<open>renderCompleteRows\<close>.
\<close>

datatype renderEvent = Onload string image | FinalCallback

definition renderInit :: "pixel list \<Rightarrow> renderState" where
  "renderInit pixelMap =
     \<lparr> currentRowIndex = 1, currentRow = findCurrentRow pixelMap 1,
       completeTiles = Map.empty, painted = [] \<rparr>"

fun renderStep :: "pixel list \<Rightarrow> rat xy \<Rightarrow> renderState \<Rightarrow> renderEvent \<Rightarrow> renderState" where
  "renderStep pixelMap offset s (Onload c im) =
     renderCompleteRows pixelMap offset (s\<lparr> completeTiles := (completeTiles s)(c \<mapsto> im) \<rparr>)"
| "renderStep pixelMap offset s FinalCallback = renderCompleteRows pixelMap offset s"

definition renderPass :: "pixel list \<Rightarrow> rat xy \<Rightarrow> renderEvent list \<Rightarrow> renderState" where
  "renderPass pixelMap offset evs = foldl (renderStep pixelMap offset) (renderInit pixelMap) evs"

text \<open>
  What holds of these variables at every moment between two events: the current row
  is the row of the current index, the entries painted so far are the rows below
  the current index, in order, each with a loaded image and at its place.
\<close>

definition rowsPainted :: "pixel list \<Rightarrow> nat \<Rightarrow> pixel list" where
  "rowsPainted pixelMap idx = concat (map (findCurrentRow pixelMap) [1..<idx])"

definition tileLoaded :: "drawImage \<Rightarrow> bool" where
  "tileLoaded d \<longleftrightarrow> (case tile d of None \<Rightarrow> False | Some im \<Rightarrow> complete im)"

definition renderInv :: "pixel list \<Rightarrow> rat xy \<Rightarrow> renderState \<Rightarrow> bool" where
  "renderInv pixelMap offset s \<longleftrightarrow>
     1 \<le> currentRowIndex s
   \<and> currentRow s = findCurrentRow pixelMap (currentRowIndex s)
   \<and> map cell (painted s) = rowsPainted pixelMap (currentRowIndex s)
   \<and> list_all tileLoaded (painted s)
   \<and> list_all (\<lambda>d. dx d = x offset + (of_nat (x (cell d)) - 1) * 8
                  \<and> dy d = y offset + (of_nat (y (cell d)) - 1) * 8) (painted s)"

section \<open>The bounded-concurrency loader (js/mosaic.js, \<open>downloadLimitedItems\<close>)\<close>

text \<open>
  What the loader does to its surroundings is recorded in a trace: \<open>Start idx item\<close> is
  the call \<open>iterator(arr[idx], cb)\<close>, with \<open>item\<close> the value of \<open>arr[idx]\<close> it hands over (\<open>None\<close>
  for \<open>undefined\<close>); \<open>Finish idx err result\<close> is a call \<open>cb(err, result)\<close> of the callback
  handed to that iterator call; \<open>Callback err results\<close> is a call of the
  function wrapped by \<open>once\<close> (the caller's \<open>callback\<close>, or \<open>noop\<close>), with
  \<open>callback(null, results)\<close> as \<open>Callback None (Some results)\<close> and \<open>callback(err)\<close> as
  \<open>Callback (Some err) None\<close>. An \<open>err\<close> argument is \<open>Some e\<close> when it is truthy and
  \<open>None\<close> when it is falsy (\<open>null\<close>, \<open>false\<close>, \<open>undefined\<close>); a result or an array element
  is \<open>None\<close> for \<open>null\<close>.
\<close>

datatype ('a, 'e, 'r) action =
    Start nat "'a option"
  | Finish nat "'e option" "'r option"
  | Callback "'e option" "'r option list option"

text \<open>
  The iterator is a function of the caller. All the loader can observe of it is
  whether it calls \<open>cb\<close> before it returns (\<open>Now err result\<close>) or leaves the call to a
  later event (\<open>Later\<close>); it is given the item (\<open>None\<close> for \<open>undefined\<close>), and the model
  also lets it depend on how many calls went before. An iterator that throws, or
  that calls \<open>cb\<close> more than once before it returns, is outside the model.
\<close>

datatype ('e, 'r) reply = Later | Now "'e option" "'r option"

record ('a, 'e, 'r) closure =
  arr :: "'a list"
  limit :: nat
  iterator :: "'a option \<Rightarrow> nat \<Rightarrow> ('e, 'r) reply"

text \<open>
  The local variables of one call of \<open>downloadLimitedItems\<close>: \<open>complete\<close> (here
  \<open>completeN\<close>), \<open>aborted\<close>, \<open>results\<close>, \<open>queued\<close>, \<open>i\<close> (here \<open>nexti\<close>), the flag \<open>f.called\<close>
  of the \<open>once\<close> wrapper, and the trace. \<open>l\<close> is \<open>length (arr cl)\<close>.
\<close>

record ('a, 'e, 'r) vars =
  completeN :: nat
  aborted :: bool
  results :: "'r option list"
  queued :: int
  nexti :: nat
  called :: bool
  trace :: "('a, 'e, 'r) action list"

text \<open>
  \<^verbatim>\<open>var once = function (fn) {
    var f = function () {
      if (f.called) return f.value
      f.called = true
      return f.value = fn.apply(this, arguments) }
    f.called = false
    return f }\<close>
  \<^verbatim>\<open>function abort (err) { aborted = true; return callback(err) }\<close>
\<close>

definition callback :: "'e option \<Rightarrow> 'r option list option \<Rightarrow> ('a, 'e, 'r) vars \<Rightarrow> ('a, 'e, 'r) vars" where
  "callback err res s =
     (if called s then s else s\<lparr> called := True, trace := trace s @ [Callback err res] \<rparr>)"

definition abort :: "'e \<Rightarrow> ('a, 'e, 'r) vars \<Rightarrow> ('a, 'e, 'r) vars" where
  "abort err s = callback (Some err) None (s\<lparr> aborted := True \<rparr>)"

definition elemAt :: "'a list \<Rightarrow> nat \<Rightarrow> 'a option" where
  "elemAt xs k = (if k < length xs then Some (xs ! k) else None)"

text \<open>
  \<^verbatim>\<open>function flush () {
    if (complete === l) { return callback(null, results) }
    while (queued < limit) {
      if (aborted) break
      if (i === l) break
      push() } }
  function push () {
    var idx = i++
    queued += 1
    iterator(arr[idx], function (err, result) {
      if (err) return abort(err)
      results[idx] = result
      complete += 1
      queued -= 1
      flush() }) }\<close>
  \<open>flush\<close>, its loop, \<open>push\<close> and the callback \<open>cb\<close> given to the iterator call one another,
  also re-entrantly when an iterator calls \<open>cb\<close> before it returns. \<open>exec cl c s\<close> runs
  the call \<open>c\<close> on the variables \<open>s\<close>; it is \<open>None\<close> if the call does not return.
  \<open>results[idx] = result\<close> is only ever executed for \<open>idx\<close> below \<open>l\<close>, the length of
  \<open>results\<close>, when \<open>cb\<close> is a callback that was handed out.
\<close>

datatype ('e, 'r) call = Flush | Loop | Push | Cb nat "'e option" "'r option"

partial_function (option) exec ::
  "('a, 'e, 'r) closure \<Rightarrow> ('e, 'r) call \<Rightarrow> ('a, 'e, 'r) vars \<Rightarrow> ('a, 'e, 'r) vars option" where
  "exec cl c s =
     (case c of
        Flush \<Rightarrow>
          if completeN s = length (arr cl) then Some (callback None (Some (results s)) s)
          else exec cl Loop s
      | Loop \<Rightarrow>
          if queued s < int (limit cl) \<and> \<not> aborted s \<and> nexti s \<noteq> length (arr cl)
          then Option.bind (exec cl Push s) (exec cl Loop)
          else Some s
      | Push \<Rightarrow>
          (let idx = nexti s;
               item = elemAt (arr cl) idx;
               s1 = s\<lparr> nexti := nexti s + 1, queued := queued s + 1,
                        trace := trace s @ [Start idx item] \<rparr>
           in case iterator cl item idx of
                Later \<Rightarrow> Some s1
              | Now err result \<Rightarrow> exec cl (Cb idx err result) s1)
      | Cb idx err result \<Rightarrow>
          (let s0 = s\<lparr> trace := trace s @ [Finish idx err result] \<rparr>
           in case err of
                Some e \<Rightarrow> Some (abort e s0)
              | None \<Rightarrow>
                  exec cl Flush
                    (s0\<lparr> results := (results s0)[idx := result],
                         completeN := completeN s0 + 1,
                         queued := queued s0 - 1 \<rparr>)))"

declare exec.simps [code]

text \<open>
  \<open>downloadLimitedItems\<close> itself: it throws when the iterator is not a function
  (\<open>None\<close> here), fills \<open>results\<close> with \<open>null\<close> and calls \<open>flush\<close>.
\<close>

definition init :: "('a, 'e, 'r) closure \<Rightarrow> ('a, 'e, 'r) vars" where
  "init cl = \<lparr> completeN = 0, aborted = False, results = replicate (length (arr cl)) None,
              queued = 0, nexti = 0, called = False, trace = [] \<rparr>"

definition downloadLimitedItems ::
  "'a list \<Rightarrow> nat \<Rightarrow> ('a option \<Rightarrow> nat \<Rightarrow> ('e, 'r) reply) option
     \<Rightarrow> (js_error + ('a, 'e, 'r) vars) option" where
  "downloadLimitedItems a lmt it =
     (case it of
        None \<Rightarrow> Some (Inl (Error ''Iterator function must be passed as the third argument''))
      | Some f \<Rightarrow> map_option Inr (let cl = \<lparr> arr = a, limit = lmt, iterator = f \<rparr>
                                  in exec cl Flush (init cl)))"

text \<open>
  After \<open>downloadLimitedItems\<close> has returned, the environment calls the callbacks of
  the pending fetches, one at a time and in any order: an event \<open>(idx, err, result)\<close>
  is the call \<open>cb(err, result)\<close> of the callback handed to the fetch of item \<open>idx\<close>.
  \<open>run\<close> is a whole execution: the call of \<open>downloadLimitedItems\<close> with an iterator
  function, then the events.
\<close>

type_synonym ('e, 'r) event = "nat \<times> 'e option \<times> 'r option"

fun deliver ::
  "('a, 'e, 'r) closure \<Rightarrow> ('e, 'r) event list \<Rightarrow> ('a, 'e, 'r) vars \<Rightarrow> ('a, 'e, 'r) vars option" where
  "deliver cl [] s = Some s"
| "deliver cl ((idx, err, result) # evs) s =
     Option.bind (exec cl (Cb idx err result) s) (deliver cl evs)"

definition run ::
  "'a list \<Rightarrow> nat \<Rightarrow> ('a option \<Rightarrow> nat \<Rightarrow> ('e, 'r) reply) \<Rightarrow> ('e, 'r) event list
     \<Rightarrow> ('a, 'e, 'r) vars option" where
  "run a lmt f evs =
     (case downloadLimitedItems a lmt (Some f) of
        Some (Inr s) \<Rightarrow> deliver \<lparr> arr = a, limit = lmt, iterator = f \<rparr> evs s
      | _ \<Rightarrow> None)"

subsection \<open>Reading a trace\<close>

text \<open>
  The items started (their indices, and the values handed to the iterator) and the
  items finished, in trace order; the calls of the final callback; the errors reported. An item is in flight when it was started and has not
  finished. A trace is well formed when every \<open>Finish idx\<close> in it is the first call of
  a callback that an earlier \<open>Start idx\<close> handed out: the fetch functions call their
  callback at most once.
\<close>

fun started :: "('a, 'e, 'r) action list \<Rightarrow> nat list" where
  "started [] = []"
| "started (Start j item # tr) = j # started tr"
| "started (_ # tr) = started tr"

fun handed :: "('a, 'e, 'r) action list \<Rightarrow> 'a option list" where
  "handed [] = []"
| "handed (Start j item # tr) = item # handed tr"
| "handed (_ # tr) = handed tr"

fun finished :: "('a, 'e, 'r) action list \<Rightarrow> nat list" where
  "finished [] = []"
| "finished (Finish j e r # tr) = j # finished tr"
| "finished (_ # tr) = finished tr"

fun callbacks :: "('a, 'e, 'r) action list \<Rightarrow> ('a, 'e, 'r) action list" where
  "callbacks [] = []"
| "callbacks (Callback e r # tr) = Callback e r # callbacks tr"
| "callbacks (_ # tr) = callbacks tr"

fun errors :: "('a, 'e, 'r) action list \<Rightarrow> 'e list" where
  "errors [] = []"
| "errors (Finish j (Some e) r # tr) = e # errors tr"
| "errors (_ # tr) = errors tr"

definition inFlight :: "('a, 'e, 'r) action list \<Rightarrow> nat list" where
  "inFlight tr = filter (\<lambda>j. j \<notin> set (finished tr)) (started tr)"

fun wfRev :: "('a, 'e, 'r) action list \<Rightarrow> bool" where
  "wfRev [] = True"
| "wfRev (Finish j e r # older) =
     (j \<in> set (started older) \<and> j \<notin> set (finished older) \<and> wfRev older)"
| "wfRev (_ # older) = wfRev older"

definition wfTrace :: "('a, 'e, 'r) action list \<Rightarrow> bool" where
  "wfTrace tr = wfRev (rev tr)"

text \<open>The starts that follow the first reported error in a trace.\<close>

fun startsAfterError :: "('a, 'e, 'r) action list \<Rightarrow> nat list" where
  "startsAfterError [] = []"
| "startsAfterError (Finish j (Some e) r # tr) = started tr"
| "startsAfterError (_ # tr) = startsAfterError tr"

subsection \<open>The loader as a transition system\<close>

text \<open>
  The calls above change the variables in three kinds of steps only: a fetch is
  started (the first half of \<open>push\<close>, under the guard of the loop), a fetch reports
  (\<open>cb\<close> up to its call of \<open>flush\<close>), and the final callback is called with the results
  (the first branch of \<open>flush\<close>). A report for item \<open>idx\<close> comes from its fetch
  (\<open>fromFetch\<close>): it is what the iterator, given \<open>arr[idx]\<close>, passed to \<open>cb\<close> before it
  returned, or it is one of the events. \<open>reach cl evs s t\<close>: the variables \<open>t\<close> arise from
  \<open>s\<close> by such steps. \<open>oks\<close> lists the items whose fetch reported success.
\<close>

fun oks :: "('a, 'e, 'r) action list \<Rightarrow> nat list" where
  "oks [] = []"
| "oks (Finish j None r # tr) = j # oks tr"
| "oks (_ # tr) = oks tr"

definition startStep :: "('a, 'e, 'r) closure \<Rightarrow> ('a, 'e, 'r) vars \<Rightarrow> ('a, 'e, 'r) vars" where
  "startStep cl s = s\<lparr> nexti := nexti s + 1, queued := queued s + 1,
                       trace := trace s @ [Start (nexti s) (elemAt (arr cl) (nexti s))] \<rparr>"

definition finishStep :: "nat \<Rightarrow> 'e option \<Rightarrow> 'r option \<Rightarrow> ('a, 'e, 'r) vars \<Rightarrow> ('a, 'e, 'r) vars" where
  "finishStep idx err result s =
     (let s0 = s\<lparr> trace := trace s @ [Finish idx err result] \<rparr>
      in case err of
           Some e \<Rightarrow> abort e s0
         | None \<Rightarrow> s0\<lparr> results := (results s0)[idx := result],
                        completeN := completeN s0 + 1,
                        queued := queued s0 - 1 \<rparr>)"

definition doneStep :: "('a, 'e, 'r) vars \<Rightarrow> ('a, 'e, 'r) vars" where
  "doneStep s = callback None (Some (results s)) s"

definition canStart :: "('a, 'e, 'r) closure \<Rightarrow> ('a, 'e, 'r) vars \<Rightarrow> bool" where
  "canStart cl s \<longleftrightarrow> queued s < int (limit cl) \<and> \<not> aborted s \<and> nexti s \<noteq> length (arr cl)"

definition fromFetch ::
  "('a, 'e, 'r) closure \<Rightarrow> ('e, 'r) event list \<Rightarrow> nat \<Rightarrow> 'e option \<Rightarrow> 'r option \<Rightarrow> bool" where
  "fromFetch cl evs idx err result \<longleftrightarrow>
     iterator cl (elemAt (arr cl) idx) idx = Now err result \<or> (idx, err, result) \<in> set evs"

inductive reach ::
  "('a, 'e, 'r) closure \<Rightarrow> ('e, 'r) event list \<Rightarrow> ('a, 'e, 'r) vars \<Rightarrow> ('a, 'e, 'r) vars \<Rightarrow> bool"
  for cl :: "('a, 'e, 'r) closure" and evs :: "('e, 'r) event list" and s :: "('a, 'e, 'r) vars" where
  stay: "reach cl evs s s"
| start: "reach cl evs s t \<Longrightarrow> canStart cl t \<Longrightarrow> reach cl evs s (startStep cl t)"
| finish: "reach cl evs s t \<Longrightarrow> fromFetch cl evs idx err result
             \<Longrightarrow> reach cl evs s (finishStep idx err result t)"
| finished_all: "reach cl evs s t \<Longrightarrow> completeN t = length (arr cl)
             \<Longrightarrow> reach cl evs s (doneStep t)"

definition settled :: "('a, 'e, 'r) closure \<Rightarrow> ('a, 'e, 'r) vars \<Rightarrow> bool" where
  "settled cl s \<longleftrightarrow> (completeN s = length (arr cl) \<longrightarrow> called s)"

definition quiet :: "('a, 'e, 'r) closure \<Rightarrow> ('a, 'e, 'r) vars \<Rightarrow> bool" where
  "quiet cl s \<longleftrightarrow> settled cl s
     \<and> (completeN s = length (arr cl) \<or> aborted s \<or> nexti s = length (arr cl)
          \<or> int (limit cl) \<le> queued s)"

text \<open>
  What a call leaves behind: \<open>flush\<close> and \<open>cb\<close> return with the final callback called
  if all items are complete, and with the loop's guard false unless that happened;
  \<open>push\<close> has started one more item.
\<close>

definition post ::
  "('a, 'e, 'r) closure \<Rightarrow> ('e, 'r) event list \<Rightarrow> ('e, 'r) call
     \<Rightarrow> ('a, 'e, 'r) vars \<Rightarrow> ('a, 'e, 'r) vars \<Rightarrow> bool" where
  "post cl evs c s t \<longleftrightarrow> reach cl evs s t \<and> nexti s \<le> nexti t \<and> nexti t \<le> length (arr cl)
     \<and> (case c of
          Flush \<Rightarrow> quiet cl t
        | Cb idx err result \<Rightarrow> quiet cl t
        | Loop \<Rightarrow> \<not> canStart cl t \<and> (settled cl s \<longrightarrow> settled cl t)
        | Push \<Rightarrow> nexti s < nexti t \<and> (settled cl s \<longrightarrow> settled cl t))"

text \<open>
  The number of fetches in flight after a trace, as the difference of starts and
  reports, and its bound at every prefix of a trace; what the final callback was
  given, in terms of the trace.
\<close>

definition diff :: "('a, 'e, 'r) action list \<Rightarrow> int" where
  "diff tr = int (length (started tr)) - int (length (finished tr))"

definition bounded :: "nat \<Rightarrow> ('a, 'e, 'r) action list \<Rightarrow> bool" where
  "bounded L tr \<longleftrightarrow> (\<forall>p \<le> length tr. diff (take p tr) \<le> int L)"

definition delivered :: "('a, 'e, 'r) closure \<Rightarrow> ('a, 'e, 'r) vars \<Rightarrow> bool" where
  "delivered cl t \<longleftrightarrow>
     (\<forall>j r. Finish j None r \<in> set (trace t) \<longrightarrow> results t ! j = r)
   \<and> (errors (trace t) \<noteq> [] \<longrightarrow>
        callbacks (trace t) = [Callback (Some (hd (errors (trace t)))) None])
   \<and> (errors (trace t) = [] \<and> called t \<longrightarrow>
        completeN t = length (arr cl)
      \<and> callbacks (trace t) = [Callback None (Some (results t))])"

chapter \<open>Properties\<close>

section \<open>Rounding\<close>

lemma binexp_lower:
  assumes "0 < q"
  shows "2 powi (binexp q) \<le> q"
proof (cases "1 \<le> q")
  case True
  then have m: "0 < \<lfloor>q\<rfloor>" by linarith
  from bitlen_bounds [OF m] have "2 ^ nat (bitlen \<lfloor>q\<rfloor> - 1) \<le> \<lfloor>q\<rfloor>" ..
  then have "(of_int (2 ^ nat (bitlen \<lfloor>q\<rfloor> - 1)) :: rat) \<le> of_int \<lfloor>q\<rfloor>"
    by (simp only: of_int_le_iff)
  also have "\<dots> \<le> q" by simp
  finally have "(2::rat) ^ nat (bitlen \<lfloor>q\<rfloor> - 1) \<le> q" by simp
  moreover have "0 \<le> bitlen \<lfloor>q\<rfloor> - 1"
    using m by (simp add: bitlen_alt_def)
  ultimately show ?thesis
    using True by (simp add: binexp_def power_int_nonneg_exp)
next
  case False
  with assms have q1: "q < 1" by simp
  then have "1 < 1 / q" using assms by simp
  then have m: "0 < \<lceil>1 / q\<rceil> - 1" by linarith
  let ?m = "\<lceil>1 / q\<rceil> - 1"
  from bitlen_bounds [OF m] have "?m < 2 ^ nat (bitlen ?m)" ..
  then have "\<lceil>1 / q\<rceil> \<le> 2 ^ nat (bitlen ?m)" by linarith
  then have "(of_int \<lceil>1 / q\<rceil> :: rat) \<le> of_int (2 ^ nat (bitlen ?m))"
    by (simp only: of_int_le_iff)
  moreover have "1 / q \<le> of_int \<lceil>1 / q\<rceil>" by (rule le_of_int_ceiling)
  ultimately have "1 / q \<le> of_int (2 ^ nat (bitlen ?m))" by (rule order_trans [rotated])
  then have "1 / q \<le> 2 ^ nat (bitlen ?m)" by simp
  then have "1 / 2 ^ nat (bitlen ?m) \<le> q"
    using assms by (simp add: field_simps)
  moreover have "0 \<le> bitlen ?m" by (rule bitlen_nonneg)
  ultimately show ?thesis
    using False by (simp add: binexp_def power_int_minus_divide power_int_nonneg_exp)
qed

lemma binexp_upper:
  assumes "0 < q"
  shows "q < 2 powi (binexp q + 1)"
proof (cases "1 \<le> q")
  case True
  then have m: "0 < \<lfloor>q\<rfloor>" by linarith
  from bitlen_bounds [OF m] have "\<lfloor>q\<rfloor> < 2 ^ nat (bitlen \<lfloor>q\<rfloor>)" ..
  then have "\<lfloor>q\<rfloor> + 1 \<le> 2 ^ nat (bitlen \<lfloor>q\<rfloor>)" by linarith
  then have "(of_int (\<lfloor>q\<rfloor> + 1) :: rat) \<le> of_int (2 ^ nat (bitlen \<lfloor>q\<rfloor>))"
    by (simp only: of_int_le_iff)
  moreover have "q < of_int (\<lfloor>q\<rfloor> + 1)" by linarith
  ultimately have "q < 2 ^ nat (bitlen \<lfloor>q\<rfloor>)" by simp
  then show ?thesis
    using True bitlen_nonneg [of "\<lfloor>q\<rfloor>"] by (simp add: binexp_def power_int_nonneg_exp)
next
  case False
  with assms have q1: "q < 1" by simp
  then have "1 < 1 / q" using assms by simp
  then have m: "0 < \<lceil>1 / q\<rceil> - 1" by linarith
  let ?m = "\<lceil>1 / q\<rceil> - 1"
  have b1: "1 \<le> bitlen ?m" using m by (simp add: bitlen_alt_def)
  from bitlen_bounds [OF m] have "2 ^ nat (bitlen ?m - 1) \<le> ?m" ..
  then have "(of_int (2 ^ nat (bitlen ?m - 1)) :: rat) \<le> of_int ?m"
    by (simp only: of_int_le_iff)
  moreover have "of_int ?m < 1 / q" by linarith
  ultimately have "2 ^ nat (bitlen ?m - 1) < 1 / q" by simp
  then have "q < 1 / 2 ^ nat (bitlen ?m - 1)"
    using assms by (simp add: field_simps)
  moreover have "binexp q + 1 = - int (nat (bitlen ?m - 1))"
    using False b1 by (simp add: binexp_def)
  ultimately show ?thesis
    by (simp only: power_int_minus_divide power_int_of_nat)
qed

lemma roundEven_le: "q \<le> of_int m \<Longrightarrow> roundEven q \<le> m"
  unfolding roundEven_def Let_def
  by (auto simp: floor_le_iff le_floor_iff; linarith)

lemma roundEven_ge: "of_int m \<le> q \<Longrightarrow> m \<le> roundEven q"
  unfolding roundEven_def Let_def
  by (auto simp: le_floor_iff; linarith)

lemma roundEven_near: "\<bar>of_int (roundEven q) - q\<bar> \<le> 1 / 2"
proof -
  have "of_int \<lfloor>q\<rfloor> \<le> q" and "q < of_int \<lfloor>q\<rfloor> + 1" by linarith+
  then show ?thesis
    by (auto simp: roundEven_def Let_def abs_le_iff)
qed

lemma fl_nonneg: "0 \<le> q \<Longrightarrow> 0 \<le> fl q"
proof -
  assume q: "0 \<le> q"
  { fix u :: rat assume "0 < u"
    then have "of_int 0 \<le> q / u" using q by simp
    then have "0 \<le> roundEven (q / u)" by (rule roundEven_ge)
  }
  then show ?thesis
    by (simp add: fl_def Let_def)
qed

lemma fl_le_nat:
  assumes "0 \<le> q" and "q \<le> of_nat m" and "m < 2 ^ 53"
  shows "fl q \<le> of_nat m"
proof (cases "q = 0")
  case True
  then show ?thesis by (simp add: fl_def)
next
  case False
  with assms have q: "0 < q" by simp
  let ?e = "binexp q"
  have "2 powi ?e \<le> q" by (rule binexp_lower [OF q])
  also have "q \<le> of_nat m" by fact
  also have "(of_nat m :: rat) < 2 ^ 53"
    using assms(3) by (metis of_nat_less_iff of_nat_numeral of_nat_power)
  finally have "(2::rat) powi ?e < 2 powi 53" by simp
  then have e: "?e < 53"
    by (rule power_int_le_imp_less_exp [rotated]) simp_all
  define k where "k = nat (52 - ?e)"
  have u: "(2::rat) powi (?e - 52) = 1 / 2 ^ k"
  proof -
    have "?e - 52 = - int k" using e by (simp add: k_def)
    then show ?thesis by (simp add: power_int_minus_divide)
  qed
  have "q / (1 / 2 ^ k) \<le> of_int (int m * 2 ^ k)"
    using assms(2) by (simp add: mult_right_mono)
  then have "roundEven (q / (1 / 2 ^ k)) \<le> int m * 2 ^ k"
    by (rule roundEven_le)
  then have "(of_int (roundEven (q / (1 / 2 ^ k))) :: rat) \<le> of_int (int m * 2 ^ k)"
    by (simp only: of_int_le_iff)
  then have "of_int (roundEven (q / (1 / 2 ^ k))) * (1 / 2 ^ k) \<le> (of_nat m :: rat)"
    by (simp add: field_simps)
  then show ?thesis
    using q False by (simp add: fl_def Let_def u)
qed

text \<open>
  Every integer below \<open>2^53\<close> is a JavaScript number: rounding leaves it as it is.
\<close>

lemma roundEven_of_int [simp]: "roundEven (of_int m) = m"
  by (simp add: roundEven_def)

lemma fl_of_nat:
  assumes "n < 2 ^ 53"
  shows "fl (of_nat n) = of_nat n"
proof (cases "n = 0")
  case True
  then show ?thesis by (simp add: fl_def)
next
  case False
  then have q: "(0::rat) < of_nat n" by simp
  let ?e = "binexp (of_nat n)"
  have "2 powi ?e \<le> (of_nat n :: rat)" by (rule binexp_lower [OF q])
  also have "(of_nat n :: rat) < 2 ^ 53"
    using assms by (metis of_nat_less_iff of_nat_numeral of_nat_power)
  finally have "(2::rat) powi ?e < 2 powi 53" by simp
  then have e: "?e < 53"
    by (rule power_int_le_imp_less_exp [rotated]) simp_all
  define k where "k = nat (52 - ?e)"
  have u: "(2::rat) powi (?e - 52) = 1 / 2 ^ k"
  proof -
    have "?e - 52 = - int k" using e by (simp add: k_def)
    then show ?thesis by (simp add: power_int_minus_divide)
  qed
  have "(of_nat n :: rat) / (1 / 2 ^ k) = of_int (int n * 2 ^ k)"
    by simp
  then have "roundEven ((of_nat n :: rat) / (1 / 2 ^ k)) = int n * 2 ^ k"
    by (simp only: roundEven_of_int)
  then show ?thesis
    using False by (simp add: fl_def Let_def u)
qed

text \<open>
  \<open>fl\<close> is correct rounding: the significand \<open>q / 2^(e-52)\<close> of a positive \<open>q\<close> lies in
  \<open>[2^52, 2^53)\<close>, and the result differs from \<open>q\<close> by at most half a unit in the last place.
\<close>

lemma fl_significand:
  assumes "0 < q"
  shows "2 ^ 52 \<le> q / 2 powi (binexp q - 52)" and "q / 2 powi (binexp q - 52) < 2 ^ 53"
proof -
  have u: "(2::rat) powi (binexp q - 52) = 2 powi binexp q / 2 ^ 52"
    by (simp add: power_int_diff)
  have p: "(0::rat) < 2 powi binexp q" by simp
  from binexp_lower [OF assms] show "2 ^ 52 \<le> q / 2 powi (binexp q - 52)"
    unfolding u using p by (simp add: field_simps)
  have "(2::rat) powi (binexp q + 1) = 2 powi binexp q * 2"
    by (simp add: power_int_add)
  with binexp_upper [OF assms] have "q < 2 powi binexp q * 2" by simp
  then show "q / 2 powi (binexp q - 52) < 2 ^ 53"
    unfolding u using p by (simp add: field_simps)
qed

lemma fl_error:
  assumes "0 < q"
  shows "\<bar>fl q - q\<bar> \<le> 2 powi (binexp q - 52) / 2"
proof -
  define u :: rat where "u = 2 powi (binexp q - 52)"
  have u: "0 < u" by (simp add: u_def)
  have "fl q - q = (of_int (roundEven (q / u)) - q / u) * u"
    using assms u by (simp add: fl_def Let_def u_def [symmetric] field_simps)
  then have "\<bar>fl q - q\<bar> = \<bar>of_int (roundEven (q / u)) - q / u\<bar> * u"
    using u by (simp add: abs_mult)
  also have "\<dots> \<le> (1 / 2) * u"
    using roundEven_near [of "q / u"] u by (intro mult_right_mono) simp_all
  finally show ?thesis by (simp add: u_def)
qed

section \<open>The quantizer\<close>

lemma fl_unit:
  assumes "0 \<le> q" and "q \<le> 1"
  shows "0 \<le> fl q" and "fl q \<le> 1"
proof -
  show "0 \<le> fl q" using assms(1) by (rule fl_nonneg)
  have "fl q \<le> of_nat 1"
    by (rule fl_le_nat) (use assms in simp_all)
  then show "fl q \<le> 1" by simp
qed

lemma bucket_range:
  assumes "0 \<le> c" and "c \<le> 255" and "n < 2 ^ 53"
  shows "0 \<le> bucket c (of_nat n)" and "bucket c (of_nat n) \<le> int n"
proof -
  from assms have c: "0 \<le> c / 255" "c / 255 \<le> 1" by simp_all
  note a = fl_unit [OF c]
  have p0: "0 \<le> fl (c / 255) * of_nat n"
    using a(1) by simp
  have p1: "fl (c / 255) * of_nat n \<le> of_nat n"
    using mult_right_mono [OF a(2), of "of_nat n"] by simp
  have "0 \<le> fl (fl (c / 255) * of_nat n)"
    using p0 by (rule fl_nonneg)
  then show "0 \<le> bucket c (of_nat n)"
    by (simp add: bucket_def)
  have "fl (fl (c / 255) * of_nat n) \<le> of_nat n"
    using p0 p1 assms(3) by (rule fl_le_nat)
  then have "\<lfloor>fl (fl (c / 255) * of_nat n)\<rfloor> \<le> \<lfloor>(of_nat n :: rat)\<rfloor>"
    by (rule floor_mono)
  then show "bucket c (of_nat n) \<le> int n"
    by (simp add: bucket_def)
qed

lemma rescale_range:
  assumes "0 \<le> k" and "k \<le> int n" and "0 < n"
  shows "0 \<le> rescale k (of_nat n)" and "rescale k (of_nat n) \<le> 255"
proof -
  have "(of_int k :: rat) \<le> of_int (int n)"
    using assms(2) by (simp only: of_int_le_iff)
  then have k: "(of_int k :: rat) \<le> of_nat n"
    by simp
  have n: "(0::rat) < of_nat n"
    using assms(3) by simp
  have d: "0 \<le> (of_int k :: rat) / of_nat n" "(of_int k :: rat) / of_nat n \<le> 1"
    using assms(1) k n by (simp_all add: divide_le_eq_1)
  note a = fl_unit [OF d]
  have p0: "0 \<le> fl (of_int k / of_nat n) * 255"
    using a(1) by simp
  have p1: "fl (of_int k / of_nat n) * 255 \<le> of_nat 255"
    using a(2) by simp
  have "0 \<le> fl (fl (of_int k / of_nat n) * 255)"
    using p0 by (rule fl_nonneg)
  then show "0 \<le> rescale k (of_nat n)"
    by (simp add: rescale_def)
  have "fl (fl (of_int k / of_nat n) * 255) \<le> of_nat 255"
    using p0 p1 by (rule fl_le_nat) simp
  then have "\<lfloor>fl (fl (of_int k / of_nat n) * 255)\<rfloor> \<le> \<lfloor>(of_nat 255 :: rat)\<rfloor>"
    by (rule floor_mono)
  then show "rescale k (of_nat n) \<le> 255"
    by (simp add: rescale_def)
qed

lemma reduceComponent_eq:
  "n \<noteq> 0 \<Longrightarrow> reduceComponent (Num c) (Num n) = Some (rescale (bucket c n) n)"
  by (simp add: reduceComponent_def bucket_def rescale_def)

lemma reduceComponent_range:
  assumes "0 \<le> c" and "c \<le> 255" and "1 \<le> n" and "n < 2 ^ 53"
  shows "\<exists>v. reduceComponent (Num c) (Num (of_nat n)) = Some (int v) \<and> v \<le> 255
           \<and> int v = rescale (bucket c (of_nat n)) (of_nat n)"
proof -
  let ?k = "bucket c (of_nat n)"
  note b = bucket_range [OF assms(1,2,4)]
  from assms(3) have n: "0 < n" by simp
  note r = rescale_range [OF b n]
  have "reduceComponent (Num c) (Num (of_nat n)) = Some (rescale ?k (of_nat n))"
    using n by (simp add: reduceComponent_eq)
  moreover have "rescale ?k (of_nat n) = int (nat (rescale ?k (of_nat n)))"
    using r(1) by simp
  moreover have "nat (rescale ?k (of_nat n)) \<le> 255"
    using r(2) by simp
  ultimately show ?thesis by metis
qed

lemma toHexDigits_small: "v < 16 \<Longrightarrow> toHexDigits v = [hexDigit v]"
  by (simp add: toHexDigits.simps)

lemma toHexDigits_byte: "16 \<le> v \<Longrightarrow> v \<le> 255 \<Longrightarrow> toHexDigits v = twoHexDigits v"
proof -
  assume a: "16 \<le> v" "v \<le> 255"
  then have "v div 16 < 16" by simp
  then have "toHexDigits (v div 16) = [hexDigit (v div 16)]"
    by (rule toHexDigits_small)
  with a show ?thesis
    by (simp add: toHexDigits.simps [of v] twoHexDigits_def)
qed

lemma convertToHex_byte: "v \<le> 255 \<Longrightarrow> convertToHex (Some (int v)) = twoHexDigits v"
proof (cases "v < 16")
  case True
  then show ?thesis
    by (simp add: convertToHex_def toString16_def toHexDigits_small twoHexDigits_def hexDigit_def)
next
  case False
  assume "v \<le> 255"
  with False show ?thesis
    by (simp add: convertToHex_def toString16_def toHexDigits_byte) (simp add: twoHexDigits_def)
qed

lemma hexDigit_lower: "d < 16 \<Longrightarrow> hexDigit d \<in> set ''0123456789abcdef''"
  unfolding hexDigit_def by (rule nth_mem) simp

lemma twoHexDigits_lower: "v \<le> 255 \<Longrightarrow> set (twoHexDigits v) \<subseteq> set ''0123456789abcdef''"
proof -
  assume "v \<le> 255"
  then have "v div 16 < 16" and "v mod 16 < 16" by simp_all
  then show ?thesis
    unfolding twoHexDigits_def using hexDigit_lower by (metis empty_set insert_subset list.simps(15) subsetI equals0D)
qed

lemma twoHexDigits_length [simp]: "length (twoHexDigits v) = 2"
  by (simp add: twoHexDigits_def)

text \<open>
  C7, amended. For components \<open>r, g, b\<close> in \<open>[0, 255]\<close> and a palette size \<open>n \<ge> 1\<close> (an
  integer that is a JavaScript number, \<open>n < 2^53\<close>), each reduced component is
  \<open>floor((floor(c / 255 * n) / n) * 255)\<close> evaluated as the code does, in binary64
  arithmetic with every operator rounding to nearest, and lies in \<open>[0, 255]\<close>; the key is the three reduced components as two
  zero-padded lower-case hexadecimal digits each, in the order R, G, B: six characters,
  all of them lower-case hexadecimal digits.
\<close>

theorem rgbToHex_key:
  assumes "r \<le> 255" and "g \<le> 255" and "b \<le> 255" and "1 \<le> n" and "n < 2 ^ 53"
  shows "\<exists>r' g' b'.
      reduceComponent (Num (of_nat r)) (Num (of_nat n)) = Some (int r')
    \<and> reduceComponent (Num (of_nat g)) (Num (of_nat n)) = Some (int g')
    \<and> reduceComponent (Num (of_nat b)) (Num (of_nat n)) = Some (int b')
    \<and> int r' = \<lfloor>fl (fl (of_int \<lfloor>fl (fl (of_nat r / 255) * of_nat n)\<rfloor> / of_nat n) * 255)\<rfloor>
    \<and> int g' = \<lfloor>fl (fl (of_int \<lfloor>fl (fl (of_nat g / 255) * of_nat n)\<rfloor> / of_nat n) * 255)\<rfloor>
    \<and> int b' = \<lfloor>fl (fl (of_int \<lfloor>fl (fl (of_nat b / 255) * of_nat n)\<rfloor> / of_nat n) * 255)\<rfloor>
    \<and> r' \<le> 255 \<and> g' \<le> 255 \<and> b' \<le> 255
    \<and> rgbToHex (Num (of_nat r)) (Num (of_nat g)) (Num (of_nat b)) (Num (of_nat n))
        = twoHexDigits r' @ twoHexDigits g' @ twoHexDigits b'
    \<and> length (rgbToHex (Num (of_nat r)) (Num (of_nat g)) (Num (of_nat b)) (Num (of_nat n))) = 6
    \<and> set (rgbToHex (Num (of_nat r)) (Num (of_nat g)) (Num (of_nat b)) (Num (of_nat n)))
        \<subseteq> set ''0123456789abcdef''"
proof -
  have c: "(0::rat) \<le> of_nat v" "v \<le> 255 \<Longrightarrow> (of_nat v :: rat) \<le> 255" for v :: nat
    by simp_all
  from reduceComponent_range [OF c(1) c(2) assms(4,5), OF assms(1)]
  obtain r' where r: "reduceComponent (Num (of_nat r)) (Num (of_nat n)) = Some (int r')"
    "r' \<le> 255" "int r' = rescale (bucket (of_nat r) (of_nat n)) (of_nat n)" by blast
  from reduceComponent_range [OF c(1) c(2) assms(4,5), OF assms(2)]
  obtain g' where g: "reduceComponent (Num (of_nat g)) (Num (of_nat n)) = Some (int g')"
    "g' \<le> 255" "int g' = rescale (bucket (of_nat g) (of_nat n)) (of_nat n)" by blast
  from reduceComponent_range [OF c(1) c(2) assms(4,5), OF assms(3)]
  obtain b' where b: "reduceComponent (Num (of_nat b)) (Num (of_nat n)) = Some (int b')"
    "b' \<le> 255" "int b' = rescale (bucket (of_nat b) (of_nat n)) (of_nat n)" by blast
  have key: "rgbToHex (Num (of_nat r)) (Num (of_nat g)) (Num (of_nat b)) (Num (of_nat n))
        = twoHexDigits r' @ twoHexDigits g' @ twoHexDigits b'"
    by (simp add: rgbToHex_def r(1) g(1) b(1) convertToHex_byte r(2) g(2) b(2))
  have len: "length (rgbToHex (Num (of_nat r)) (Num (of_nat g)) (Num (of_nat b)) (Num (of_nat n))) = 6"
    unfolding key by simp
  have low: "set (rgbToHex (Num (of_nat r)) (Num (of_nat g)) (Num (of_nat b)) (Num (of_nat n)))
      \<subseteq> set ''0123456789abcdef''"
    unfolding key
    using twoHexDigits_lower [OF r(2)] twoHexDigits_lower [OF g(2)] twoHexDigits_lower [OF b(2)]
    by (simp only: set_append Un_subset_iff)
  note f = r(3) [unfolded bucket_def rescale_def] g(3) [unfolded bucket_def rescale_def]
    b(3) [unfolded bucket_def rescale_def]
  from r(1) g(1) b(1) f r(2) g(2) b(2) key len low show ?thesis
    by blast
qed

text \<open>
  C7 as stated, with the formula read as it is written, fails for the component 155
  and the palette size 51: the product \<open>155 / 255 * 51\<close> is exactly 31, the code computes
  the quotient \<open>155 / 255\<close> rounded down and with it a product just below 31, so its
  bucket is 30 and its reduced component is 150 where the formula gives 155; the key of
  the grey \<open>(155, 155, 155)\<close> is \<open>969696\<close>, not \<open>9b9b9b\<close>.
\<close>

theorem exact_formula_counterexample:
  "reduceComponent (Num 155) (Num 51) = Some 150
   \<and> exactReduced 155 51 = 155
   \<and> reduceComponent (Num 155) (Num 51) \<noteq> Some (exactReduced 155 51)
   \<and> rgbToHex (Num 155) (Num 155) (Num 155) (Num 51) = ''969696''
   \<and> twoHexDigits (nat (exactReduced 155 51)) @ twoHexDigits (nat (exactReduced 155 51))
       @ twoHexDigits (nat (exactReduced 155 51)) = ''9b9b9b''"
  by code_simp

text \<open>
  C1 as stated, at most \<open>n\<close> distinct reduced values per channel, fails for the
  palette size 1: the component 255 falls into the bucket \<open>floor(255 / 255 * 1) = 1\<close>
  of its own, so the components 0 and 255 are reduced to the two values 0 and 255.
\<close>

theorem palette_size_counterexample:
  "\<not> card ((\<lambda>c. reduceComponent (Num (of_nat c)) (Num 1)) ` {0..255::nat}) \<le> 1"
proof -
  let ?f = "\<lambda>c::nat. reduceComponent (Num (of_nat c)) (Num 1)"
  let ?S = "?f ` {0..255}"
  have a: "reduceComponent (Num 0) (Num 1) = Some 0"
    by code_simp
  have b: "reduceComponent (Num 255) (Num 1) = Some 255"
    by code_simp
  have f0: "?f 0 = Some 0" and f255: "?f 255 = Some 255"
    using a b by simp_all
  have m0: "(0::nat) \<in> {0..255}" and m255: "(255::nat) \<in> {0..255}"
    by (simp_all only: atLeastAtMost_iff) simp_all
  have "Some 0 \<in> ?S"
    using f0 [symmetric] m0 by (rule image_eqI)
  moreover have "Some 255 \<in> ?S"
    using f255 [symmetric] m255 by (rule image_eqI)
  ultimately have sub: "{Some 0, Some 255} \<subseteq> ?S"
    by (simp only: insert_subset empty_subsetI simp_thms)
  have fin: "finite ?S"
    by (rule finite_imageI) (rule finite_atLeastAtMost)
  have "card {Some (0::int), Some 255} \<le> card ?S"
    using fin sub by (rule card_mono)
  moreover have "card {Some (0::int), Some 255} = 2"
    by simp
  ultimately show ?thesis
    by linarith
qed

lemma reduced_values:
  assumes "1 \<le> n" and "n < 2 ^ 53" and "0 \<le> c" and "c \<le> 255"
  shows "reduceComponent (Num c) (Num (of_nat n))
           \<in> (\<lambda>k. Some (rescale (int k) (of_nat n))) ` {0..n}"
proof -
  note b = bucket_range [OF assms(3,4,2)]
  have "reduceComponent (Num c) (Num (of_nat n)) = Some (rescale (bucket c (of_nat n)) (of_nat n))"
    using assms(1) by (simp add: reduceComponent_eq)
  also have "\<dots> = Some (rescale (int (nat (bucket c (of_nat n)))) (of_nat n))"
    using b(1) by simp
  finally show ?thesis
    using b(2) by (intro image_eqI [where x = "nat (bucket c (of_nat n))"]) simp_all
qed

text \<open>
  C1, amended. The buckets are \<open>0, \<dots>, n\<close>, one more than \<open>n\<close>: for every palette size
  \<open>n \<ge> 1\<close> (\<open>n < 2^53\<close>) the reduced values of a channel are at most \<open>n + 1\<close>, for the
  byte components \<open>0, \<dots>, 255\<close> and for all components in \<open>[0, 255]\<close>.
\<close>

theorem palette_bound:
  assumes "1 \<le> n" and "n < 2 ^ 53"
  shows "card ((\<lambda>c. reduceComponent (Num (of_nat c)) (Num (of_nat n))) ` {0..255::nat}) \<le> n + 1
       \<and> card ((\<lambda>c. reduceComponent (Num c) (Num (of_nat n))) ` {c::rat. 0 \<le> c \<and> c \<le> 255}) \<le> n + 1"
proof -
  let ?V = "(\<lambda>k. Some (rescale (int k) (of_nat n))) ` {0..n}"
  have fin: "finite ?V" by simp
  have "card ?V \<le> card {0..n}" by (rule card_image_le) simp
  then have cV: "card ?V \<le> n + 1" by simp
  have "(\<lambda>c. reduceComponent (Num (of_nat c)) (Num (of_nat n))) ` {0..255::nat} \<subseteq> ?V"
    using reduced_values [OF assms] by (auto simp del: image_eqI)
  then have 1: "card ((\<lambda>c. reduceComponent (Num (of_nat c)) (Num (of_nat n))) ` {0..255::nat}) \<le> card ?V"
    using fin by (intro card_mono)
  have "(\<lambda>c. reduceComponent (Num c) (Num (of_nat n))) ` {c::rat. 0 \<le> c \<and> c \<le> 255} \<subseteq> ?V"
    using reduced_values [OF assms] by blast
  then have 2: "card ((\<lambda>c. reduceComponent (Num c) (Num (of_nat n))) ` {c::rat. 0 \<le> c \<and> c \<le> 255}) \<le> card ?V"
    using fin by (intro card_mono)
  from 1 2 cV show ?thesis by linarith
qed

theorem palette_bound_witness:
  "(1::nat) \<le> 1 \<and> (1::nat) < 2 ^ 53
   \<and> card ((\<lambda>c. reduceComponent (Num (of_nat c)) (Num 1)) ` {0..255::nat}) \<le> 2"
  using palette_bound [of 1] by simp

theorem rgbToHex_key_witness:
  "(200::nat) \<le> 255 \<and> (100::nat) \<le> 255 \<and> (7::nat) \<le> 255 \<and> (1::nat) \<le> 16 \<and> (16::nat) < 2 ^ 53
   \<and> length (rgbToHex (Num 200) (Num 100) (Num 7) (Num 16)) = 6
   \<and> set (rgbToHex (Num 200) (Num 100) (Num 7) (Num 16)) \<subseteq> set ''0123456789abcdef''
   \<and> rgbToHex (Num 200) (Num 100) (Num 7) (Num 16) = ''bf5f00''"
proof -
  have e: "rgbToHex (Num 200) (Num 100) (Num 7) (Num 16) = ''bf5f00''"
    by code_simp
  have h: "(200::nat) \<le> 255" "(100::nat) \<le> 255" "(7::nat) \<le> 255" "(1::nat) \<le> 16" "(16::nat) < 2 ^ 53"
    by simp_all
  from rgbToHex_key [OF h]
  have "length (rgbToHex (Num (of_nat 200)) (Num (of_nat 100)) (Num (of_nat 7)) (Num (of_nat 16))) = 6
      \<and> set (rgbToHex (Num (of_nat 200)) (Num (of_nat 100)) (Num (of_nat 7)) (Num (of_nat 16)))
          \<subseteq> set ''0123456789abcdef''"
    by blast
  then have "length (rgbToHex (Num 200) (Num 100) (Num 7) (Num 16)) = 6
      \<and> set (rgbToHex (Num 200) (Num 100) (Num 7) (Num 16)) \<subseteq> set ''0123456789abcdef''"
    by (simp only: of_nat_numeral)
  with e h show ?thesis by blast
qed

section \<open>Pixel map\<close>

lemma mapIndexed_length [simp]: "length (mapIndexed f xs) = length xs"
  by (simp add: mapIndexed_def)

lemma mapIndexed_nth [simp]: "i < length xs \<Longrightarrow> mapIndexed f xs ! i = f (xs ! i) i"
  by (simp add: mapIndexed_def)

lemma pixelEntries_length [simp]: "length (pixelEntries sz cs) = length cs"
  by (simp add: pixelEntries_def)

lemma pixelEntries_nth:
  "i < length cs \<Longrightarrow> pixelEntries sz cs ! i = pixelEntry sz (cs ! i) i"
  by (simp add: pixelEntries_def)

lemma rowMajor_Suc:
  "rowMajor gx (Suc gy) = rowMajor gx gy @ map (\<lambda>c. (c, gy + 1)) [1..<gx + 1]"
  by (simp add: rowMajor_def)

lemma coords_upt:
  assumes "0 < gx"
  shows "map (\<lambda>i. (i mod gx + 1, i div gx + 1)) [0..<gx * gy] = rowMajor gx gy"
proof (induction gy)
  case 0
  show ?case by (simp add: rowMajor_def)
next
  case (Suc gy)
  have "[0..<gx * gy + gx] = [0..<gx * gy] @ [gx * gy..<gx * gy + gx]"
    by (rule upt_add_eq_append) simp
  moreover have "[gx * gy..<gx * gy + gx] = map (\<lambda>c. c + gx * gy) [0..<gx]"
    by (simp only: map_add_upt add.commute [of gx "gx * gy"])
  moreover have "gx * Suc gy = gx * gy + gx"
    by simp
  ultimately have split: "[0..<gx * Suc gy] = [0..<gx * gy] @ map (\<lambda>c. c + gx * gy) [0..<gx]"
    by (simp only:)
  have "[1..<gx + 1] = map (\<lambda>c. c + 1) [0..<gx]"
    by (simp only: map_add_upt)
  then have "map (\<lambda>c. (c, gy + 1)) [1..<gx + 1] = map (\<lambda>c. (c + 1, gy + 1)) [0..<gx]"
    by (simp add: comp_def)
  moreover have "map (\<lambda>i. (i mod gx + 1, i div gx + 1)) (map (\<lambda>c. c + gx * gy) [0..<gx])
      = map (\<lambda>c. (c + 1, gy + 1)) [0..<gx]"
    using assms by (simp add: comp_def)
  ultimately have row: "map (\<lambda>i. (i mod gx + 1, i div gx + 1)) (map (\<lambda>c. c + gx * gy) [0..<gx])
              = map (\<lambda>c. (c, gy + 1)) [1..<gx + 1]"
    by simp
  show ?case
    unfolding split map_append Suc.IH row rowMajor_Suc ..
qed

lemma rowMajor_set: "set (rowMajor gx gy) = {1..gx} \<times> {1..gy}"
proof -
  have a: "set [1..<n + 1] = {1..n}" for n :: nat
    by (simp only: set_upt Suc_eq_plus1 [symmetric] atLeastLessThanSuc_atLeastAtMost)
  have "set (rowMajor gx gy) = (\<Union>r\<in>{1..gy}. (\<lambda>c. (c, r)) ` {1..gx})"
    unfolding rowMajor_def set_concat set_map a image_image ..
  also have "\<dots> = {1..gx} \<times> {1..gy}"
    by blast
  finally show ?thesis .
qed

lemma rowMajor_distinct: "distinct (rowMajor gx gy)"
proof (induction gy)
  case 0
  show ?case by (simp add: rowMajor_def)
next
  case (Suc gy)
  have d: "distinct (map (\<lambda>c. (c, gy + 1)) [1..<gx + 1])"
    by (simp add: distinct_map inj_on_def)
  have "\<And>p. p \<in> set (rowMajor gx gy) \<Longrightarrow> snd p \<le> gy"
    unfolding rowMajor_set by auto
  then have "set (rowMajor gx gy) \<inter> set (map (\<lambda>c. (c, gy + 1)) [1..<gx + 1]) = {}"
    by fastforce
  with d Suc.IH show ?case unfolding rowMajor_Suc by simp
qed

lemma pixelEntries_coords:
  assumes "0 < x sz" and "length cs = x sz * gy"
  shows "map (\<lambda>p. (x p, y p)) (pixelEntries sz cs) = rowMajor (x sz) gy"
proof -
  have "map (\<lambda>p. (x p, y p)) (pixelEntries sz cs)
          = map (\<lambda>i. (i mod x sz + 1, i div x sz + 1)) [0..<length cs]"
    by (rule nth_equalityI) (simp_all add: pixelEntries_nth pixelEntry_def)
  then show ?thesis
    using coords_upt [OF assms(1), of gy] assms(2) by simp
qed

text \<open>
  The worker returns one colour for every four bytes of the pixel buffer, so the image
  data of a \<open>gx \<times> gy\<close> canvas yields \<open>gx * gy\<close> colours, and with a worker \<open>getPixelMap\<close>
  resolves to the entries built from them.
\<close>

lemma getColorMap_loop_length:
  "length (getColorMap_loop d colors k acc) = length acc + (length d - k + 3) div 4"
proof (induction d colors k acc rule: getColorMap_loop.induct)
  case (1 d colors k acc)
  show ?case
  proof (cases "k < length d")
    case True
    then have "(length d - k + 3) div 4 = Suc ((length d - (k + 4) + 3) div 4)"
      by (cases "k + 4 \<le> length d") (simp_all add: Suc_diff_le div_add_self2 flip: Suc_eq_plus1)
    with True "1.IH" show ?thesis
      by (simp add: getColorMap_loop.simps [of d colors k acc])
  next
    case False
    then show ?thesis
      by (simp add: getColorMap_loop.simps [of d colors k acc])
  qed
qed

lemma getColorMap_length:
  "length (data img) = 4 * n \<Longrightarrow> length (MosaicWorker_getColorMap img colors) = n"
  by (simp add: MosaicWorker_getColorMap_def getColorMap_loop_length)

lemma getPixelMap_worker:
  "0 < x sz \<Longrightarrow> 0 < y sz \<Longrightarrow>
     getPixelMap True sz img colors
       = Inr (Promise (pixelEntries sz (MosaicWorker_getColorMap img colors)))"
  by (simp add: getPixelMap_def Mosaic_getColorMap_def onmessage_def)

text \<open>
  C9. For a grid of \<open>gx \<times> gy\<close> cells (\<open>gx, gy \<ge> 1\<close>) and a colour list of length
  \<open>gx * gy\<close>, the pixel map has exactly \<open>gx * gy\<close> entries; entry \<open>i\<close> carries the i-th
  colour at \<open>x = (i mod gx) + 1\<close>, \<open>y = (i div gx) + 1\<close>; the coordinates of the entries,
  read in order, are the row-major enumeration of \<open>[1, gx] \<times> [1, gy]\<close>, so every pair
  of that rectangle appears exactly once.
\<close>

theorem pixel_map_complete:
  assumes "1 \<le> gx" and "1 \<le> gy" and "length cs = gx * gy"
  shows "length (pixelEntries \<lparr> x = gx, y = gy \<rparr> cs) = gx * gy
    \<and> (\<forall>i < gx * gy.
          x (pixelEntries \<lparr> x = gx, y = gy \<rparr> cs ! i) = (i mod gx) + 1
        \<and> y (pixelEntries \<lparr> x = gx, y = gy \<rparr> cs ! i) = (i div gx) + 1
        \<and> color (pixelEntries \<lparr> x = gx, y = gy \<rparr> cs ! i) = cs ! i)
    \<and> map (\<lambda>p. (x p, y p)) (pixelEntries \<lparr> x = gx, y = gy \<rparr> cs) = rowMajor gx gy
    \<and> distinct (map (\<lambda>p. (x p, y p)) (pixelEntries \<lparr> x = gx, y = gy \<rparr> cs))
    \<and> set (map (\<lambda>p. (x p, y p)) (pixelEntries \<lparr> x = gx, y = gy \<rparr> cs))
        = {1..gx} \<times> {1..gy}"
proof -
  let ?pm = "pixelEntries \<lparr> x = gx, y = gy \<rparr> cs"
  have len: "length ?pm = gx * gy"
    using assms(3) by simp
  have nth: "\<forall>i < gx * gy. x (?pm ! i) = (i mod gx) + 1 \<and> y (?pm ! i) = (i div gx) + 1
            \<and> color (?pm ! i) = cs ! i"
    using assms(3) by (simp add: pixelEntries_nth pixelEntry_def)
  have c: "map (\<lambda>p. (x p, y p)) ?pm = rowMajor gx gy"
    using pixelEntries_coords [of "\<lparr> x = gx, y = gy \<rparr>" cs gy] assms by simp
  have d: "distinct (map (\<lambda>p. (x p, y p)) ?pm)"
    unfolding c by (rule rowMajor_distinct)
  have e: "set (map (\<lambda>p. (x p, y p)) ?pm) = {1..gx} \<times> {1..gy}"
    unfolding c by (rule rowMajor_set)
  from len nth c d e show ?thesis by blast
qed

theorem pixel_map_complete_witness:
  "1 \<le> (2::nat) \<and> 1 \<le> (2::nat) \<and> length [''aa'', ''bb'', ''cc'', ''dd''] = 2 * 2
   \<and> map (\<lambda>p. (x p, y p)) (pixelEntries \<lparr> x = 2, y = 2 \<rparr> [''aa'', ''bb'', ''cc'', ''dd''])
       = [(1, 1), (2, 1), (1, 2), (2, 2)]"
proof -
  have h: "1 \<le> (2::nat)" "length [''aa'', ''bb'', ''cc'', ''dd''] = 2 * 2"
    by simp_all
  have r: "rowMajor 2 2 = [(1, 1), (2, 1), (1, 2), (2, 2)]"
    by code_simp
  from pixel_map_complete [OF h(1) h(1) h(2)] r h show ?thesis
    by simp
qed

section \<open>The keys handed to the loader, and the coordinator\<close>

lemma indexOfFrom_nth:
  "distinct xs \<Longrightarrow> i < length xs \<Longrightarrow> indexOfFrom k xs (xs ! i) = int (k + i)"
proof (induction xs arbitrary: k i)
  case Nil
  then show ?case by simp
next
  case (Cons a as)
  show ?case
  proof (cases i)
    case 0
    then show ?thesis by simp
  next
    case (Suc j)
    with Cons.prems have "as ! j \<in> set as" and "a \<notin> set as" by auto
    then have "a \<noteq> as ! j" by auto
    with Cons Suc show ?thesis by simp
  qed
qed

lemma filterIndexed_unique_distinct:
  assumes "distinct xs"
  shows "filterIndexed unique xs = xs"
proof -
  have "\<And>p. p \<in> set (zip xs [0..<length xs]) \<Longrightarrow> (case p of (v, i) \<Rightarrow> unique v i xs)"
    using assms by (auto simp: set_zip unique_def indexOf_def indexOfFrom_nth)
  then have "filter (\<lambda>(v, i). unique v i xs) (zip xs [0..<length xs]) = zip xs [0..<length xs]"
    by (simp add: filter_id_conv)
  then show ?thesis
    by (simp add: filterIndexed_def)
qed

lemma pixelEntries_oid: "map oid (pixelEntries sz cs) = [0..<length cs]"
  by (rule nth_equalityI) (simp_all add: pixelEntries_def mapIndexed_def pixelEntry_def)

lemma pixelEntries_color: "map color (pixelEntries sz cs) = cs"
  by (rule nth_equalityI) (simp_all add: pixelEntries_def mapIndexed_def pixelEntry_def)

lemma pixelEntries_distinct: "distinct (pixelEntries sz cs)"
proof -
  have "distinct (map oid (pixelEntries sz cs))"
    by (simp add: pixelEntries_oid)
  then show ?thesis by (simp add: distinct_map)
qed

lemma uniqueColors_pixelEntries: "uniqueColors (pixelEntries sz cs) = cs"
  by (simp add: uniqueColors_def filterIndexed_unique_distinct pixelEntries_distinct pixelEntries_color)

text \<open>
  C2. The claim is that the key list handed to the loader holds every distinct key
  of the pixel map once. \<open>filter(unique)\<close> is applied to the pixel map entries, which are
  objects and all different from one another, before their colours are taken: the
  filter removes nothing (\<open>uniqueColors_pixelEntries\<close>), and a colour that two cells
  share is handed to the loader twice.
\<close>

theorem unique_keeps_duplicates:
  "uniqueColors (pixelEntries \<lparr> x = 2, y = 1 \<rparr> [''000000'', ''000000'']) = [''000000'', ''000000'']
   \<and> \<not> distinct (uniqueColors (pixelEntries \<lparr> x = 2, y = 1 \<rparr> [''000000'', ''000000'']))"
  by code_simp

lemma fallback_always_throws:
  "Mosaic_getColorMap False img colors = Inl (TypeError ''MosaicWorker is not a constructor'')"
  by (simp add: Mosaic_getColorMap_def js_new_def)

lemma worker_reply:
  "Mosaic_getColorMap True img colors = Inr (Promise (MosaicWorker_getColorMap img colors))"
  by (simp add: Mosaic_getColorMap_def onmessage_def)

text \<open>
  C8. The claim is that the fallback computes the colour map the worker would. Without
  \<open>window.Worker\<close> the coordinator throws a \<open>TypeError\<close> for every input
  (\<open>fallback_always_throws\<close>), where the worker strategy delivers the colour list
  (\<open>worker_reply\<close>).
\<close>

theorem fallback_throws:
  "Mosaic_getColorMap False \<lparr> data = [255, 0, 0, 255] \<rparr> (Num 16)
     = Inl (TypeError ''MosaicWorker is not a constructor'')
   \<and> Mosaic_getColorMap True \<lparr> data = [255, 0, 0, 255] \<rparr> (Num 16) = Inr (Promise [''ff0000''])"
  by code_simp

section \<open>Progressive row rendering\<close>

lemma rowsPainted_Suc:
  "1 \<le> idx \<Longrightarrow> rowsPainted pm (Suc idx) = rowsPainted pm idx @ findCurrentRow pm idx"
  by (simp add: rowsPainted_def)

lemma currentRowDownloaded_tiles:
  assumes "currentRowDownloaded row tiles"
  shows "list_all tileLoaded (map (drawTile offset tiles) row)"
  using assms
  by (auto simp: currentRowDownloaded_def list_all_iff list_ex_iff tileLoaded_def drawTile_def)

lemma paintCurrentRow_inv:
  assumes "renderInv pm offset s" and "currentRowDownloaded (currentRow s) (completeTiles s)"
  shows "renderInv pm offset (paintCurrentRow pm offset s)"
proof -
  from assms(1) have i: "1 \<le> currentRowIndex s"
    and r: "currentRow s = findCurrentRow pm (currentRowIndex s)"
    and p: "map cell (painted s) = rowsPainted pm (currentRowIndex s)"
    and t: "list_all tileLoaded (painted s)"
    and c: "list_all (\<lambda>d. dx d = x offset + (of_nat (x (cell d)) - 1) * 8
                  \<and> dy d = y offset + (of_nat (y (cell d)) - 1) * 8) (painted s)"
    by (simp_all add: renderInv_def)
  have cells: "map cell (map (drawTile offset (completeTiles s)) (currentRow s)) = currentRow s"
    by (simp add: comp_def drawTile_def)
  have coords: "list_all (\<lambda>d. dx d = x offset + (of_nat (x (cell d)) - 1) * 8
                  \<and> dy d = y offset + (of_nat (y (cell d)) - 1) * 8)
       (map (drawTile offset (completeTiles s)) (currentRow s))"
    by (simp add: list_all_iff drawTile_def TILE_WIDTH_def TILE_HEIGHT_def)
  show ?thesis
    unfolding renderInv_def paintCurrentRow_def Let_def
    using i p t c cells coords currentRowDownloaded_tiles [OF assms(2), of offset]
    by (simp add: rowsPainted_Suc r)
qed

lemma renderCompleteRows_inv:
  "renderInv pm offset s \<Longrightarrow> renderInv pm offset (renderCompleteRows pm offset s)"
proof (induction pm offset s rule: renderCompleteRows.induct)
  case (1 pm offset s)
  show ?case
  proof (cases "currentRowDownloaded (currentRow s) (completeTiles s)")
    case False
    then show ?thesis
      using "1.prems" by (simp add: renderCompleteRows.simps [of pm offset s])
  next
    case True
    let ?s' = "paintCurrentRow pm offset s"
    have inv': "renderInv pm offset ?s'"
      using "1.prems" True by (rule paintCurrentRow_inv)
    show ?thesis
    proof (cases "length (currentRow ?s') = 0")
      case stop: True
      then show ?thesis
        using True inv' by (simp add: renderCompleteRows.simps [of pm offset s])
    next
      case more: False
      have "renderInv pm offset (renderCompleteRows pm offset ?s')"
        using True more inv' by (intro "1.IH") simp_all
      then show ?thesis
        using True more by (simp add: renderCompleteRows.simps [of pm offset s])
    qed
  qed
qed

lemma renderInit_inv: "renderInv pm offset (renderInit pm)"
  by (simp add: renderInv_def renderInit_def rowsPainted_def)

lemma renderStep_inv:
  "renderInv pm offset s \<Longrightarrow> renderInv pm offset (renderStep pm offset s ev)"
proof (cases ev)
  case (Onload c im)
  assume "renderInv pm offset s"
  then have "renderInv pm offset (s\<lparr> completeTiles := (completeTiles s)(c \<mapsto> im) \<rparr>)"
    by (simp add: renderInv_def)
  then show ?thesis
    unfolding Onload renderStep.simps by (rule renderCompleteRows_inv)
next
  case FinalCallback
  assume "renderInv pm offset s"
  then show ?thesis
    unfolding FinalCallback renderStep.simps by (rule renderCompleteRows_inv)
qed

lemma renderPass_inv: "renderInv pm offset (renderPass pm offset evs)"
proof -
  have "renderInv pm offset s \<Longrightarrow> renderInv pm offset (foldl (renderStep pm offset) s evs)" for s
    by (induction evs arbitrary: s) (simp_all add: renderStep_inv)
  then show ?thesis
    unfolding renderPass_def using renderInit_inv by blast
qed

lemma sorted_map_monoI: "mono g \<Longrightarrow> sorted xs \<Longrightarrow> sorted (map g xs)"
  by (induction xs) (auto dest: monoD)

lemma rowsPainted_bound: "p \<in> set (rowsPainted pm idx) \<Longrightarrow> y p < idx"
  by (auto simp: rowsPainted_def findCurrentRow_def)

lemma sorted_const: "(\<And>v. v \<in> set xs \<Longrightarrow> v = c) \<Longrightarrow> sorted xs"
  by (induction xs) auto

lemma rowsPainted_sorted: "sorted (map y (rowsPainted pm idx))"
proof (induction idx)
  case 0
  show ?case by (simp add: rowsPainted_def)
next
  case (Suc idx)
  show ?case
  proof (cases "1 \<le> idx")
    case True
    have b: "sorted (map y (findCurrentRow pm idx))"
      by (rule sorted_const [where c = idx]) (auto simp: findCurrentRow_def)
    have c: "\<forall>u\<in>set (map y (rowsPainted pm idx)). \<forall>v\<in>set (map y (findCurrentRow pm idx)). u \<le> v"
    proof (intro ballI)
      fix u v
      assume "u \<in> set (map y (rowsPainted pm idx))" and "v \<in> set (map y (findCurrentRow pm idx))"
      then have "u < idx" and "v = idx"
        using rowsPainted_bound [of _ pm idx] by (auto simp: findCurrentRow_def)
      then show "u \<le> v" by simp
    qed
    show ?thesis
      unfolding rowsPainted_Suc [OF True] map_append sorted_append
      using Suc.IH b c by blast
  next
    case False
    then show ?thesis by (simp add: rowsPainted_def)
  qed
qed

text \<open>
  C6. For every pixel map and every sequence of image arrivals and callback calls,
  the paint calls made are exactly the rows 1, 2, \<dots> below the current row index, one
  whole row after the other: their row indices never decrease (nor do their vertical
  positions), no entry of a row is painted before the rows below it are complete on
  the canvas, and every entry was painted with a loaded image.
\<close>

theorem rows_painted_in_order:
  "sorted (map (\<lambda>d. y (cell d)) (painted (renderPass pm offset evs)))
   \<and> map cell (painted (renderPass pm offset evs))
       = concat (map (findCurrentRow pm) [1..<currentRowIndex (renderPass pm offset evs)])
   \<and> list_all (\<lambda>d. case tile d of None \<Rightarrow> False | Some im \<Rightarrow> complete im)
        (painted (renderPass pm offset evs))
   \<and> sorted (map dy (painted (renderPass pm offset evs)))"
proof -
  let ?s = "renderPass pm offset evs"
  from renderPass_inv [of pm offset evs]
  have p: "map cell (painted ?s) = rowsPainted pm (currentRowIndex ?s)"
    and t: "list_all tileLoaded (painted ?s)"
    and c: "list_all (\<lambda>d. dx d = x offset + (of_nat (x (cell d)) - 1) * 8
                  \<and> dy d = y offset + (of_nat (y (cell d)) - 1) * 8) (painted ?s)"
    by (simp_all add: renderInv_def)
  have "map (\<lambda>d. y (cell d)) (painted ?s) = map y (map cell (painted ?s))"
    by (simp add: comp_def)
  then have s: "sorted (map (\<lambda>d. y (cell d)) (painted ?s))"
    by (simp only: p rowsPainted_sorted)
  have "map dy (painted ?s) = map (\<lambda>r. y offset + (of_nat r - 1) * 8) (map (\<lambda>d. y (cell d)) (painted ?s))"
    using c by (simp add: list_all_iff comp_def)
  moreover have "mono (\<lambda>r::nat. y offset + (of_nat r - 1) * 8)"
    by (rule monoI) simp
  ultimately have sd: "sorted (map dy (painted ?s))"
    using s by (simp only: sorted_map_monoI)
  from s p t sd show ?thesis
    by (simp add: rowsPainted_def tileLoaded_def [abs_def])
qed

theorem rows_painted_in_order_witness:
  "sorted (map (\<lambda>d. y (cell d))
     (painted (renderPass (pixelEntries \<lparr> x = 2, y = 2 \<rparr> [''aa'', ''bb'', ''bb'', ''cc''])
        \<lparr> x = 1 / 2, y = 0 \<rparr>
        [Onload ''cc'' \<lparr> src = ''color/cc'', complete = True \<rparr>,
         Onload ''bb'' \<lparr> src = ''color/bb'', complete = True \<rparr>,
         Onload ''aa'' \<lparr> src = ''color/aa'', complete = True \<rparr>])))
   \<and> map (\<lambda>d. (x (cell d), y (cell d), dx d, dy d))
     (painted (renderPass (pixelEntries \<lparr> x = 2, y = 2 \<rparr> [''aa'', ''bb'', ''bb'', ''cc''])
        \<lparr> x = 1 / 2, y = 0 \<rparr>
        [Onload ''cc'' \<lparr> src = ''color/cc'', complete = True \<rparr>,
         Onload ''bb'' \<lparr> src = ''color/bb'', complete = True \<rparr>,
         Onload ''aa'' \<lparr> src = ''color/aa'', complete = True \<rparr>]))
     = [(1, 1, 1 / 2, 0), (2, 1, 17 / 2, 0), (1, 2, 1 / 2, 8), (2, 2, 17 / 2, 8)]"
proof -
  have e: "map (\<lambda>d. (x (cell d), y (cell d), dx d, dy d))
     (painted (renderPass (pixelEntries \<lparr> x = 2, y = 2 \<rparr> [''aa'', ''bb'', ''bb'', ''cc''])
        \<lparr> x = 1 / 2, y = 0 \<rparr>
        [Onload ''cc'' \<lparr> src = ''color/cc'', complete = True \<rparr>,
         Onload ''bb'' \<lparr> src = ''color/bb'', complete = True \<rparr>,
         Onload ''aa'' \<lparr> src = ''color/aa'', complete = True \<rparr>]))
     = [(1, 1, 1 / 2, 0), (2, 1, 17 / 2, 0), (1, 2, 1 / 2, 8), (2, 2, 17 / 2, 8)]"
    by code_simp
  from rows_painted_in_order [of "pixelEntries \<lparr> x = 2, y = 2 \<rparr> [''aa'', ''bb'', ''bb'', ''cc'']"
      "\<lparr> x = 1 / 2, y = 0 \<rparr>"
      "[Onload ''cc'' \<lparr> src = ''color/cc'', complete = True \<rparr>,
         Onload ''bb'' \<lparr> src = ''color/bb'', complete = True \<rparr>,
         Onload ''aa'' \<lparr> src = ''color/aa'', complete = True \<rparr>]"] e
  show ?thesis by blast
qed


section \<open>The bounded-concurrency loader\<close>

text \<open>
  The \<open>once\<close> wrapper: a call of the wrapped callback leaves it called, and a call of
  a callback already called changes nothing.
\<close>

lemma callback_once: "called s \<Longrightarrow> callback err res s = s"
  by (simp add: callback_def)

lemma callback_called: "called (callback err res s)"
  by (simp add: callback_def)

lemma reach_trans:
  assumes "reach cl evs s t" and "reach cl evs t u"
  shows "reach cl evs s u"
  using assms(2,1) by (induction rule: reach.induct) (auto intro: reach.intros)

lemma exec_Flush:
  "exec cl Flush s =
     (if completeN s = length (arr cl) then Some (doneStep s) else exec cl Loop s)"
  by (subst exec.simps) (simp add: doneStep_def)

lemma exec_Loop:
  "exec cl Loop s =
     (if canStart cl s then Option.bind (exec cl Push s) (exec cl Loop) else Some s)"
  by (subst exec.simps) (simp add: canStart_def)

lemma exec_Push:
  "exec cl Push s =
     (case iterator cl (elemAt (arr cl) (nexti s)) (nexti s) of
        Later \<Rightarrow> Some (startStep cl s)
      | Now err result \<Rightarrow> exec cl (Cb (nexti s) err result) (startStep cl s))"
  by (subst exec.simps) (simp add: startStep_def Let_def split: reply.splits)

lemma exec_Cb:
  "exec cl (Cb idx err result) s =
     (case err of
        Some e \<Rightarrow> Some (finishStep idx err result s)
      | None \<Rightarrow> exec cl Flush (finishStep idx err result s))"
  by (subst exec.simps) (simp add: finishStep_def Let_def split: option.splits)

lemma nexti_startStep [simp]: "nexti (startStep cl s) = nexti s + 1"
  by (simp add: startStep_def)

lemma nexti_callback [simp]: "nexti (callback e r s) = nexti s"
  by (simp add: callback_def)

lemma nexti_finishStep [simp]: "nexti (finishStep idx err result s) = nexti s"
  by (simp add: finishStep_def Let_def abort_def split: option.splits)

lemma nexti_doneStep [simp]: "nexti (doneStep s) = nexti s"
  by (simp add: doneStep_def)

lemma settled_startStep: "settled cl s \<Longrightarrow> settled cl (startStep cl s)"
  by (simp add: settled_def startStep_def)

lemma settled_doneStep: "settled cl (doneStep s)"
  by (simp add: settled_def doneStep_def callback_def)

lemma quiet_doneStep: "completeN s = length (arr cl) \<Longrightarrow> quiet cl (doneStep s)"
  by (simp add: quiet_def settled_def doneStep_def callback_def)

lemma quiet_abort: "quiet cl (finishStep idx (Some e) result s)"
  by (simp add: quiet_def settled_def finishStep_def Let_def abort_def callback_def)

lemma exec_total_aux:
  fixes cl :: "('a, 'e, 'r) closure"
  shows "\<forall>s :: ('a, 'e, 'r) vars. length (arr cl) - nexti s = m \<and> nexti s \<le> length (arr cl) \<longrightarrow>
     (canStart cl s \<longrightarrow> (\<exists>t. exec cl Push s = Some t \<and> post cl evs Push s t))
   \<and> (\<exists>t. exec cl Loop s = Some t \<and> post cl evs Loop s t)
   \<and> (\<exists>t. exec cl Flush s = Some t \<and> post cl evs Flush s t)
   \<and> (\<forall>idx err result. fromFetch cl evs idx err result \<longrightarrow>
         (\<exists>t. exec cl (Cb idx err result) s = Some t \<and> post cl evs (Cb idx err result) s t))"
proof (induction m rule: less_induct)
  case (less m)
  let ?l = "length (arr cl)"
  \<comment> \<open>the callback of a fetch started at this level runs one level below\<close>
  have push: "\<exists>t. exec cl Push s = Some t \<and> post cl evs Push s t"
    if m: "?l - nexti s = m" and le: "nexti s \<le> ?l" and can: "canStart cl s"
    for s :: "('a, 'e, 'r) vars"
  proof -
    from can le have lt: "nexti s < ?l" by (simp add: canStart_def)
    let ?s1 = "startStep cl s"
    have r1: "reach cl evs s ?s1" using can by (intro reach.start reach.stay)
    have lvl: "?l - nexti ?s1 < m" "nexti ?s1 \<le> ?l" using lt m by simp_all
    show ?thesis
    proof (cases "iterator cl (elemAt (arr cl) (nexti s)) (nexti s)")
      case Later
      then have "exec cl Push s = Some ?s1" by (simp add: exec_Push)
      moreover have "post cl evs Push s ?s1"
        using r1 lt by (simp add: post_def settled_startStep)
      ultimately show ?thesis by blast
    next
      case (Now err result)
      then have ff: "fromFetch cl evs (nexti s) err result"
        by (simp add: fromFetch_def)
      from less.IH [OF lvl(1), rule_format, of ?s1] lvl(2) ff
      obtain t where t: "exec cl (Cb (nexti s) err result) ?s1 = Some t"
        and p: "post cl evs (Cb (nexti s) err result) ?s1 t" by blast
      from Now t have "exec cl Push s = Some t" by (simp add: exec_Push)
      moreover have "post cl evs Push s t"
        using p r1 lt by (auto simp: post_def quiet_def intro: reach_trans)
      ultimately show ?thesis by blast
    qed
  qed
  have loop: "\<exists>t. exec cl Loop s = Some t \<and> post cl evs Loop s t"
    if m: "?l - nexti s = m" and le: "nexti s \<le> ?l"
    for s :: "('a, 'e, 'r) vars"
  proof (cases "canStart cl s")
    case False
    then have "exec cl Loop s = Some s" by (simp add: exec_Loop)
    moreover have "post cl evs Loop s s"
      using False le by (simp add: post_def reach.stay)
    ultimately show ?thesis by blast
  next
    case True
    from push [OF m le True] obtain t1 where t1: "exec cl Push s = Some t1"
      and p1: "post cl evs Push s t1" by blast
    from p1 have lvl: "?l - nexti t1 < m" "nexti t1 \<le> ?l"
      using m by (auto simp: post_def)
    from less.IH [OF lvl(1), rule_format, of t1] lvl(2)
    obtain t where t: "exec cl Loop t1 = Some t" and p: "post cl evs Loop t1 t" by blast
    from True t1 t have "exec cl Loop s = Some t" by (simp add: exec_Loop)
    moreover have "post cl evs Loop s t"
      using p1 p by (auto simp: post_def intro: reach_trans)
    ultimately show ?thesis by blast
  qed
  have flush: "\<exists>t. exec cl Flush s = Some t \<and> post cl evs Flush s t"
    if m: "?l - nexti s = m" and le: "nexti s \<le> ?l"
    for s :: "('a, 'e, 'r) vars"
  proof (cases "completeN s = ?l")
    case True
    then have "exec cl Flush s = Some (doneStep s)" by (simp add: exec_Flush)
    moreover have "post cl evs Flush s (doneStep s)"
      using True le by (simp add: post_def quiet_doneStep reach.finished_all reach.stay)
    ultimately show ?thesis by blast
  next
    case False
    from loop [OF m le] obtain t where t: "exec cl Loop s = Some t" and p: "post cl evs Loop s t"
      by blast
    from False t have "exec cl Flush s = Some t" by (simp add: exec_Flush)
    moreover have "post cl evs Flush s t"
      using p False by (auto simp: post_def quiet_def settled_def canStart_def)
    ultimately show ?thesis by blast
  qed
  have cb: "\<exists>t. exec cl (Cb idx err result) s = Some t \<and> post cl evs (Cb idx err result) s t"
    if m: "?l - nexti s = m" and le: "nexti s \<le> ?l" and ff: "fromFetch cl evs idx err result"
    for s :: "('a, 'e, 'r) vars" and idx err result
  proof (cases err)
    case (Some e)
    then have "exec cl (Cb idx err result) s = Some (finishStep idx err result s)"
      by (simp add: exec_Cb)
    moreover have "post cl evs (Cb idx err result) s (finishStep idx err result s)"
      using le Some ff by (simp add: post_def quiet_abort reach.finish reach.stay)
    ultimately show ?thesis by blast
  next
    case None
    let ?s' = "finishStep idx err result s"
    have r: "reach cl evs s ?s'" using ff by (intro reach.finish reach.stay)
    from flush [of ?s'] m le obtain t where t: "exec cl Flush ?s' = Some t"
      and p: "post cl evs Flush ?s' t" by auto
    from None t have "exec cl (Cb idx err result) s = Some t" by (simp add: exec_Cb)
    moreover have "post cl evs (Cb idx err result) s t"
      using p r by (auto simp: post_def intro: reach_trans)
    ultimately show ?thesis by blast
  qed
  show ?case
    using push loop flush cb by blast
qed

lemma exec_total:
  fixes cl :: "('a, 'e, 'r) closure" and s :: "('a, 'e, 'r) vars"
  assumes "nexti s \<le> length (arr cl)"
  shows "\<exists>t. exec cl Flush s = Some t \<and> reach cl evs s t \<and> quiet cl t \<and> nexti t \<le> length (arr cl)"
    and "fromFetch cl evs idx err result \<Longrightarrow>
           \<exists>t. exec cl (Cb idx err result) s = Some t \<and> reach cl evs s t \<and> quiet cl t
            \<and> nexti t \<le> length (arr cl)"
proof -
  from exec_total_aux [of cl "length (arr cl) - nexti s" evs, rule_format, of s] assms
  have f: "\<exists>t. exec cl Flush s = Some t \<and> post cl evs Flush s t"
    and c: "fromFetch cl evs idx err result \<Longrightarrow>
      \<exists>t. exec cl (Cb idx err result) s = Some t \<and> post cl evs (Cb idx err result) s t"
    by blast+
  from f obtain t where "exec cl Flush s = Some t" and "post cl evs Flush s t" by blast
  then show "\<exists>t. exec cl Flush s = Some t \<and> reach cl evs s t \<and> quiet cl t
      \<and> nexti t \<le> length (arr cl)"
    by (auto simp: post_def)
  assume "fromFetch cl evs idx err result"
  with c obtain t where "exec cl (Cb idx err result) s = Some t"
    and "post cl evs (Cb idx err result) s t" by blast
  then show "\<exists>t. exec cl (Cb idx err result) s = Some t \<and> reach cl evs s t \<and> quiet cl t
      \<and> nexti t \<le> length (arr cl)"
    by (auto simp: post_def)
qed

lemma deliver_total:
  fixes cl :: "('a, 'e, 'r) closure" and s :: "('a, 'e, 'r) vars"
  assumes "nexti s \<le> length (arr cl)" and "quiet cl s" and "set es \<subseteq> set evs"
  shows "\<exists>t. deliver cl es s = Some t \<and> reach cl evs s t \<and> quiet cl t"
  using assms
proof (induction es arbitrary: s)
  case Nil
  then show ?case by (simp add: reach.stay)
next
  case (Cons ev es)
  obtain idx err result where ev: "ev = (idx, err, result)" by (cases ev)
  with Cons.prems(3) have ff: "fromFetch cl evs idx err result"
    by (simp add: fromFetch_def)
  from Cons.prems(3) have sub: "set es \<subseteq> set evs" by simp
  from exec_total(2) [OF Cons.prems(1) ff]
  obtain t1 where t1: "exec cl (Cb idx err result) s = Some t1" and r1: "reach cl evs s t1"
    and q1: "quiet cl t1" and n1: "nexti t1 \<le> length (arr cl)" by blast
  from Cons.IH [OF n1 q1 sub] obtain t where "deliver cl es t1 = Some t" and "reach cl evs t1 t"
    and "quiet cl t" by blast
  with t1 r1 show ?case
    unfolding ev by (auto intro: reach_trans)
qed

lemma run_total:
  "\<exists>t. run a lmt f evs = Some t
     \<and> reach \<lparr> arr = a, limit = lmt, iterator = f \<rparr> evs
           (init \<lparr> arr = a, limit = lmt, iterator = f \<rparr>) t
     \<and> quiet \<lparr> arr = a, limit = lmt, iterator = f \<rparr> t"
proof -
  let ?cl = "\<lparr> arr = a, limit = lmt, iterator = f \<rparr>"
  have "nexti (init ?cl) \<le> length (arr ?cl)" by (simp add: init_def)
  from exec_total(1) [OF this, of evs]
  obtain s where s: "exec ?cl Flush (init ?cl) = Some s" and rs: "reach ?cl evs (init ?cl) s"
    and qs: "quiet ?cl s" and ns: "nexti s \<le> length (arr ?cl)" by blast
  from deliver_total [OF ns qs subset_refl]
  obtain t where t: "deliver ?cl evs s = Some t" and rt: "reach ?cl evs s t" and qt: "quiet ?cl t"
    by blast
  have "run a lmt f evs = Some t"
    using s t by (simp add: run_def downloadLimitedItems_def Let_def)
  with rs rt qt show ?thesis
    by (auto intro: reach_trans)
qed

lemma started_append [simp]: "started (xs @ ys) = started xs @ started ys"
  by (induction xs rule: started.induct) simp_all

lemma handed_append [simp]: "handed (xs @ ys) = handed xs @ handed ys"
  by (induction xs rule: handed.induct) simp_all

lemma handed_length: "length (handed tr) = length (started tr)"
  by (induction tr rule: handed.induct) simp_all

lemma Start_handed:
  "Start j item \<in> set tr \<longleftrightarrow> (j, item) \<in> set (zip (started tr) (handed tr))"
  by (induction tr rule: handed.induct) auto

lemma elemAt_upt: "n \<le> length xs \<Longrightarrow> map (elemAt xs) [0..<n] = map Some (take n xs)"
  by (rule nth_equalityI) (simp_all add: elemAt_def)

lemma finished_append [simp]: "finished (xs @ ys) = finished xs @ finished ys"
  by (induction xs rule: finished.induct) simp_all

lemma callbacks_append [simp]: "callbacks (xs @ ys) = callbacks xs @ callbacks ys"
  by (induction xs rule: callbacks.induct) simp_all

lemma errors_append [simp]: "errors (xs @ ys) = errors xs @ errors ys"
  by (induction xs rule: errors.induct) simp_all

lemma oks_append [simp]: "oks (xs @ ys) = oks xs @ oks ys"
  by (induction xs rule: oks.induct) simp_all

lemma startsAfterError_append:
  "startsAfterError (xs @ ys)
     = (if errors xs = [] then startsAfterError ys else startsAfterError xs @ started ys)"
  by (induction xs rule: startsAfterError.induct) simp_all

lemma oks_le_finished: "length (oks tr) \<le> length (finished tr)"
  by (induction tr rule: oks.induct) simp_all

lemma oks_finished: "errors tr = [] \<Longrightarrow> oks tr = finished tr"
  by (induction tr rule: oks.induct) simp_all

lemma started_rev: "started (rev tr) = rev (started tr)"
  by (induction tr rule: started.induct) simp_all

lemma finished_rev: "finished (rev tr) = rev (finished tr)"
  by (induction tr rule: finished.induct) simp_all

lemma wfTrace_Nil [simp]: "wfTrace []"
  by (simp add: wfTrace_def)

lemma wfTrace_snoc:
  "wfTrace (tr @ [a]) \<longleftrightarrow>
     wfTrace tr \<and> (case a of Finish j e r \<Rightarrow> j \<in> set (started tr) \<and> j \<notin> set (finished tr)
                     | _ \<Rightarrow> True)"
  by (cases a) (auto simp: wfTrace_def started_rev finished_rev)

lemma wfTrace_append: "wfTrace (xs @ ys) \<Longrightarrow> wfTrace xs"
proof (induction ys rule: rev_induct)
  case Nil
  then show ?case by simp
next
  case (snoc a ys)
  from snoc.prems have "wfTrace ((xs @ ys) @ [a])" by simp
  then have "wfTrace (xs @ ys)" by (simp only: wfTrace_snoc)
  then show ?case by (rule snoc.IH)
qed

lemma wfTrace_take: "wfTrace tr \<Longrightarrow> wfTrace (take p tr)"
  using wfTrace_append [of "take p tr" "drop p tr"] by simp

lemma wfTrace_finished:
  "wfTrace tr \<Longrightarrow> distinct (finished tr) \<and> set (finished tr) \<subseteq> set (started tr)"
proof (induction tr rule: rev_induct)
  case Nil
  then show ?case by simp
next
  case (snoc a tr)
  then show ?case by (cases a) (auto simp: wfTrace_snoc)
qed

lemma inFlight_length:
  assumes "wfTrace tr" and "distinct (started tr)"
  shows "int (length (inFlight tr)) = diff tr"
proof -
  from wfTrace_finished [OF assms(1)]
  have d: "distinct (finished tr)" and sub: "set (finished tr) \<subseteq> set (started tr)" by simp_all
  have "length (filter (\<lambda>j. j \<in> set (finished tr)) (started tr))
          = card (set (started tr) \<inter> set (finished tr))"
    using assms(2) by (simp add: distinct_length_filter Int_commute)
  also have "set (started tr) \<inter> set (finished tr) = set (finished tr)"
    using sub by blast
  also have "card (set (finished tr)) = length (finished tr)"
    using d by (rule distinct_card)
  finally have "length (filter (\<lambda>j. j \<in> set (finished tr)) (started tr)) = length (finished tr)" .
  moreover have "length (filter (\<lambda>j. j \<in> set (finished tr)) (started tr))
      + length (inFlight tr) = length (started tr)"
    unfolding inFlight_def by (rule sum_length_filter_compl)
  ultimately show ?thesis
    by (simp add: diff_def)
qed

lemma bounded_snoc:
  "bounded L (tr @ [a]) \<longleftrightarrow> bounded L tr \<and> diff (tr @ [a]) \<le> int L"
proof -
  have "(\<forall>p \<le> Suc (length tr). diff (take p (tr @ [a])) \<le> int L)
     \<longleftrightarrow> (\<forall>p \<le> length tr. diff (take p (tr @ [a])) \<le> int L) \<and> diff (tr @ [a]) \<le> int L"
    by (auto simp: le_Suc_eq)
  then show ?thesis
    by (simp add: bounded_def)
qed

lemma bounded_snoc2:
  "bounded L (tr @ [a, b]) \<longleftrightarrow>
     bounded L tr \<and> diff (tr @ [a]) \<le> int L \<and> diff (tr @ [a, b]) \<le> int L"
proof -
  have "tr @ [a, b] = (tr @ [a]) @ [b]" by simp
  then show ?thesis
    by (simp only: bounded_snoc) blast
qed

lemma bounded_last: "bounded L tr \<Longrightarrow> diff tr \<le> int L"
  unfolding bounded_def by (drule spec [of _ "length tr"]) simp

lemma diff_snoc [simp]:
  "diff (tr @ [Start j item]) = diff tr + 1"
  "diff (tr @ [Finish j e r]) = diff tr - 1"
  "diff (tr @ [Callback e rs]) = diff tr"
  by (simp_all add: diff_def)

lemma trace_callback:
  "trace (callback e rs s) = (if called s then trace s else trace s @ [Callback e rs])"
  by (simp add: callback_def)

lemma trace_startStep [simp]:
  "trace (startStep cl s) = trace s @ [Start (nexti s) (elemAt (arr cl) (nexti s))]"
  by (simp add: startStep_def)

lemma trace_finishStep:
  "trace (finishStep idx err result s) =
     (case err of
        None \<Rightarrow> trace s @ [Finish idx None result]
      | Some e \<Rightarrow> if called s then trace s @ [Finish idx err result]
                  else trace s @ [Finish idx err result, Callback (Some e) None])"
  by (simp add: finishStep_def Let_def abort_def callback_def split: option.splits)

lemma trace_doneStep:
  "trace (doneStep s) = (if called s then trace s else trace s @ [Callback None (Some (results s))])"
  by (simp add: doneStep_def callback_def)

lemma snoc2: "xs @ [a, b] = (xs @ [a]) @ [b]"
  by simp

lemma inv_started:
  assumes "reach cl evs (init cl) t"
  shows "nexti t \<le> length (arr cl) \<and> started (trace t) = [0..<nexti t]
       \<and> length (results t) = length (arr cl)"
  using assms
proof (induction rule: reach.induct)
  case stay
  show ?case by (simp add: init_def)
next
  case (start t)
  then show ?case by (simp add: canStart_def startStep_def)
next
  case (finish t idx err result)
  then show ?case
    by (cases err) (simp_all add: finishStep_def Let_def abort_def callback_def)
next
  case (finished_all t)
  then show ?case by (simp add: doneStep_def callback_def)
qed

lemma inv_counts:
  assumes "reach cl evs (init cl) t"
  shows "completeN t = length (oks (trace t))
       \<and> queued t = int (nexti t) - int (length (oks (trace t)))
       \<and> (aborted t \<longleftrightarrow> errors (trace t) \<noteq> [])"
  using assms
proof (induction rule: reach.induct)
  case stay
  show ?case by (simp add: init_def)
next
  case (start t)
  then show ?case by (simp add: startStep_def)
next
  case (finish t idx err result)
  then show ?case
    by (cases err) (simp_all add: finishStep_def Let_def abort_def callback_def)
next
  case (finished_all t)
  then show ?case by (simp add: doneStep_def callback_def)
qed

lemma inv_called:
  assumes "reach cl evs (init cl) t"
  shows "(called t \<longleftrightarrow> callbacks (trace t) \<noteq> []) \<and> length (callbacks (trace t)) \<le> 1"
  using assms
proof (induction rule: reach.induct)
  case stay
  show ?case by (simp add: init_def)
next
  case (start t)
  then show ?case by (simp add: startStep_def)
next
  case (finish t idx err result)
  then show ?case
    by (cases err) (simp_all add: finishStep_def Let_def abort_def callback_def)
next
  case (finished_all t)
  then show ?case by (simp add: doneStep_def callback_def)
qed

lemma inv_noStart:
  assumes "reach cl evs (init cl) t"
  shows "startsAfterError (trace t) = []"
  using assms
proof (induction rule: reach.induct)
  case stay
  show ?case by (simp add: init_def)
next
  case (start t)
  from inv_counts [OF start.hyps(1)] start.hyps(2) have "errors (trace t) = []"
    by (simp add: canStart_def)
  then show ?case
    by (simp add: startsAfterError_append)
next
  case (finish t idx err result)
  then show ?case
    by (cases err) (simp_all add: trace_finishStep startsAfterError_append)
next
  case (finished_all t)
  then show ?case by (simp add: trace_doneStep startsAfterError_append)
qed

lemma inv_bounded:
  assumes "reach cl evs (init cl) t"
  shows "bounded (limit cl) (trace t)"
  using assms
proof (induction rule: reach.induct)
  case stay
  show ?case by (simp add: init_def bounded_def diff_def)
next
  case (start t)
  from inv_counts [OF start.hyps(1)] inv_started [OF start.hyps(1)]
  have "diff (trace t) \<le> queued t"
    using oks_le_finished [of "trace t"] by (simp add: diff_def)
  with start.hyps(2) have "diff (trace t) + 1 \<le> int (limit cl)"
    by (simp add: canStart_def)
  with start.IH show ?case
    by (simp add: bounded_snoc)
next
  case (finish t idx err result)
  from bounded_last [OF finish.IH] have "diff (trace t) - 1 \<le> int (limit cl)" by simp
  with finish.IH show ?case
    by (cases err) (simp_all add: trace_finishStep bounded_snoc bounded_snoc2 diff_def)
next
  case (finished_all t)
  from bounded_last [OF finished_all.IH] finished_all.IH show ?case
    by (simp add: trace_doneStep bounded_snoc)
qed

text \<open>
  The values handed to the iterator are the elements of the array, in order; and every
  report in the trace comes from the fetch of its item.
\<close>

lemma inv_handed:
  assumes "reach cl evs (init cl) t"
  shows "handed (trace t) = map (elemAt (arr cl)) [0..<nexti t]"
  using assms
proof (induction rule: reach.induct)
  case stay
  show ?case by (simp add: init_def)
next
  case (start t)
  then show ?case by simp
next
  case (finish t idx err result)
  then show ?case
    by (cases err) (simp_all add: trace_finishStep)
next
  case (finished_all t)
  then show ?case by (simp add: trace_doneStep)
qed

lemma inv_sources:
  assumes "reach cl evs (init cl) t" and "Finish j e r \<in> set (trace t)"
  shows "fromFetch cl evs j e r"
  using assms
proof (induction rule: reach.induct)
  case stay
  then show ?case by (simp add: init_def)
next
  case (start t)
  then show ?case by simp
next
  case (finish t idx err result)
  from finish.prems have "Finish j e r \<in> set (trace t) \<or> (j = idx \<and> e = err \<and> r = result)"
    by (cases err) (auto simp: trace_finishStep split: if_splits)
  with finish.IH finish.hyps(2) show ?case by blast
next
  case (finished_all t)
  from finished_all.prems have "Finish j e r \<in> set (trace t)"
    by (auto simp: trace_doneStep split: if_splits)
  then show ?case by (rule finished_all.IH)
qed

lemma Finish_finished: "Finish j e r \<in> set tr \<Longrightarrow> j \<in> set (finished tr)"
  by (induction tr rule: finished.induct) auto

lemma finished_Finish: "j \<in> set (finished tr) \<Longrightarrow> \<exists>e r. Finish j e r \<in> set tr"
  by (induction tr rule: finished.induct) auto

lemma Finish_no_error: "errors tr = [] \<Longrightarrow> Finish j e r \<in> set tr \<Longrightarrow> e = None"
  by (induction tr rule: errors.induct) auto

lemma pending_fetch:
  assumes r: "reach cl evs (init cl) t" and wf: "wfTrace (trace t)"
    and j: "j \<in> set (started (trace t))" "j \<notin> set (finished (trace t))"
  shows "j < length (arr cl)" and "completeN t < length (arr cl)"
proof -
  from inv_started [OF r] have n: "nexti t \<le> length (arr cl)"
    and st: "started (trace t) = [0..<nexti t]" by simp_all
  from j(1) st n show "j < length (arr cl)" by simp
  from wfTrace_finished [OF wf] have d: "distinct (finished (trace t))"
    and sub: "set (finished (trace t)) \<subseteq> set (started (trace t))" by simp_all
  from sub j have "set (finished (trace t)) \<subset> set (started (trace t))" by blast
  then have "card (set (finished (trace t))) < card (set (started (trace t)))"
    by (intro psubset_card_mono) simp_all
  moreover have "card (set (finished (trace t))) = length (finished (trace t))"
    using d by (rule distinct_card)
  moreover have "card (set (started (trace t))) = nexti t"
    by (simp add: st)
  ultimately have "length (finished (trace t)) < nexti t" by simp
  with oks_le_finished [of "trace t"] inv_counts [OF r] n
  show "completeN t < length (arr cl)" by simp
qed

lemma inv_delivered:
  assumes "reach cl evs (init cl) t"
  shows "wfTrace (trace t) \<longrightarrow> delivered cl t"
  using assms
proof (induction rule: reach.induct)
  case stay
  show ?case by (simp add: init_def delivered_def)
next
  case (start t)
  show ?case
  proof
    assume "wfTrace (trace (startStep cl t))"
    then have "wfTrace (trace t)" by (simp add: wfTrace_snoc)
    with start.IH have "delivered cl t" by simp
    then show "delivered cl (startStep cl t)"
      by (simp add: delivered_def startStep_def)
  qed
next
  case (finished_all t)
  show ?case
  proof
    assume wf': "wfTrace (trace (doneStep t))"
    then have "wfTrace (trace t)"
      by (simp add: trace_doneStep wfTrace_snoc split: if_splits)
    with finished_all.IH have d: "delivered cl t" by simp
    show "delivered cl (doneStep t)"
    proof (cases "called t")
      case True
      then have "doneStep t = t" by (simp add: doneStep_def callback_def)
      with d show ?thesis by simp
    next
      case False
      with inv_called [OF finished_all.hyps(1)] have cb: "callbacks (trace t) = []" by simp
      with d have e: "errors (trace t) = []" by (auto simp: delivered_def)
      from False cb e d finished_all.hyps(2) show ?thesis
        by (simp add: delivered_def doneStep_def callback_def)
    qed
  qed
next
  case (finish t idx err result)
  show ?case
  proof
    assume wf': "wfTrace (trace (finishStep idx err result t))"
    have "wfTrace (trace t @ [Finish idx err result])"
    proof (cases err)
      case None
      with wf' show ?thesis by (simp add: trace_finishStep)
    next
      case (Some e)
      show ?thesis
      proof (cases "called t")
        case True
        with wf' Some show ?thesis by (simp add: trace_finishStep)
      next
        case False
        with wf' Some have "wfTrace ((trace t @ [Finish idx err result]) @ [Callback (Some e) None])"
          by (simp add: trace_finishStep)
        then show ?thesis by (rule wfTrace_append)
      qed
    qed
    then have wf: "wfTrace (trace t)" and j: "idx \<in> set (started (trace t))"
      "idx \<notin> set (finished (trace t))"
      by (simp_all add: wfTrace_snoc)
    from finish.IH wf have d: "delivered cl t" by simp
    note p = pending_fetch [OF finish.hyps(1) wf j]
    from inv_started [OF finish.hyps(1)] have len: "length (results t) = length (arr cl)" by simp
    have nc: "errors (trace t) = [] \<Longrightarrow> \<not> called t"
      using d p(2) by (auto simp: delivered_def)
    show "delivered cl (finishStep idx err result t)"
    proof (cases err)
      case None
      have "results (finishStep idx err result t) ! j = r"
        if "Finish j None r \<in> set (trace (finishStep idx err result t))" for j r
      proof -
        from that None have "Finish j None r \<in> set (trace t) \<or> (j = idx \<and> r = result)"
          by (auto simp: trace_finishStep)
        then show ?thesis
        proof
          assume old: "Finish j None r \<in> set (trace t)"
          then have "j \<in> set (finished (trace t))" by (rule Finish_finished)
          with j(2) have "j \<noteq> idx" by blast
          with old d None show ?thesis
            by (simp add: delivered_def finishStep_def Let_def)
        next
          assume "j = idx \<and> r = result"
          with None p(1) len show ?thesis
            by (simp add: finishStep_def Let_def)
        qed
      qed
      moreover have "errors (trace (finishStep idx err result t)) = errors (trace t)"
        "callbacks (trace (finishStep idx err result t)) = callbacks (trace t)"
        "called (finishStep idx err result t) = called t"
        using None by (simp_all add: finishStep_def Let_def)
      ultimately show ?thesis
        using d nc unfolding delivered_def by metis
    next
      case (Some e)
      have res: "results (finishStep idx err result t) = results t"
        using Some by (simp add: finishStep_def Let_def abort_def callback_def)
      have fin: "Finish j None r \<in> set (trace (finishStep idx err result t))
          \<longleftrightarrow> Finish j None r \<in> set (trace t)" for j r
        using Some by (auto simp: trace_finishStep)
      have err': "errors (trace (finishStep idx err result t)) = errors (trace t) @ [e]"
        using Some by (simp add: trace_finishStep)
      have cbs: "callbacks (trace (finishStep idx err result t))
          = [Callback (Some (hd (errors (trace t) @ [e]))) None]"
      proof (cases "errors (trace t) = []")
        case True
        with nc have "\<not> called t" by simp
        moreover from this inv_called [OF finish.hyps(1)] have "callbacks (trace t) = []" by simp
        ultimately show ?thesis
          using Some True by (simp add: trace_finishStep)
      next
        case False
        with d have c: "callbacks (trace t) = [Callback (Some (hd (errors (trace t)))) None]"
          by (simp add: delivered_def)
        with inv_called [OF finish.hyps(1)] have "called t" by simp
        with Some c False show ?thesis
          by (simp add: trace_finishStep)
      qed
      from d res fin err' cbs show ?thesis
        by (simp add: delivered_def)
    qed
  qed
qed

text \<open>
  C10. Called with an empty list, \<open>downloadLimitedItems\<close> returns with the final
  callback called once, with \<open>null\<close> and an empty results array, and without any call
  of the iterator: the trace is that one call, for every limit and every iterator.
\<close>

theorem empty_input:
  "downloadLimitedItems [] lmt (Some f)
     = Some (Inr \<lparr> completeN = 0, aborted = False, results = [], queued = 0, nexti = 0,
                    called = True, trace = [Callback None (Some [])] \<rparr>)"
  by (simp add: downloadLimitedItems_def exec_Flush doneStep_def callback_def init_def)

lemma run_facts:
  fixes f :: "'a option \<Rightarrow> nat \<Rightarrow> ('e, 'r) reply"
  obtains t where "run a lmt f evs = Some t"
    and "reach \<lparr> arr = a, limit = lmt, iterator = f \<rparr> evs
           (init \<lparr> arr = a, limit = lmt, iterator = f \<rparr>) t"
    and "quiet \<lparr> arr = a, limit = lmt, iterator = f \<rparr> t"
  using run_total [of a lmt f evs] by blast

lemma started_distinct_take:
  assumes "started tr = [0..<n]"
  shows "distinct (started (take p tr))"
proof -
  have "started tr = started (take p tr) @ started (drop p tr)"
    by (simp flip: started_append)
  with assms have "distinct (started (take p tr) @ started (drop p tr))"
    by (metis distinct_upt)
  then show ?thesis by simp
qed

lemma quiet_run_complete:
  assumes r: "reach cl evs (init cl) t" and q: "quiet cl t" and wf: "wfTrace (trace t)"
    and fl: "inFlight (trace t) = []" and ne: "errors (trace t) = []" and lim: "1 \<le> limit cl"
  shows "completeN t = length (arr cl)" and "called t" and "nexti t = length (arr cl)"
    and "set (finished (trace t)) = {0..<length (arr cl)}"
proof -
  from inv_started [OF r] have n: "nexti t \<le> length (arr cl)"
    and st: "started (trace t) = [0..<nexti t]" by simp_all
  from inv_counts [OF r] have c: "completeN t = length (oks (trace t))"
    and qd: "queued t = int (nexti t) - int (length (oks (trace t)))"
    and ab: "aborted t \<longleftrightarrow> errors (trace t) \<noteq> []" by simp_all
  have "distinct (started (trace t))" by (simp add: st)
  from inFlight_length [OF wf this] fl have "diff (trace t) = 0" by simp
  then have "length (finished (trace t)) = nexti t"
    by (simp add: diff_def st)
  with oks_finished [OF ne] c qd have cn: "completeN t = nexti t" and q0: "queued t = 0"
    by simp_all
  from q ab ne cn q0 lim have "completeN t = length (arr cl) \<or> nexti t = length (arr cl)"
    by (auto simp: quiet_def)
  with cn show l: "completeN t = length (arr cl)" and nl: "nexti t = length (arr cl)"
    by simp_all
  from q l show "called t" by (simp add: quiet_def settled_def)
  from fl have "set (started (trace t)) \<subseteq> set (finished (trace t))"
    by (auto simp: inFlight_def filter_empty_conv)
  with wfTrace_finished [OF wf] have "set (finished (trace t)) = set (started (trace t))"
    by blast
  with st nl show "set (finished (trace t)) = {0..<length (arr cl)}"
    by simp
qed

text \<open>
  C3. Every execution returns. When the limit is at least 1 (the caller passes 16),
  every fetch that was started has reported, each once, and none reported an error,
  the final callback has been called exactly once, with \<open>null\<close> and a results array as
  long as the input, in input order: for every index \<open>j\<close> the iterator was called with
  the j-th item of the input, and entry \<open>j\<close> of the results is what that fetch delivered,
  either what the iterator passed to its callback before returning or the result of
  an event for \<open>j\<close>. When a fetch has reported an error, the final callback has been
  called exactly once, with the first error reported and no results array.
\<close>

theorem all_fetched:
  fixes f :: "'a option \<Rightarrow> nat \<Rightarrow> ('e, 'r) reply"
  assumes "1 \<le> lmt"
  shows "\<exists>t. run a lmt f evs = Some t
    \<and> (wfTrace (trace t) \<and> inFlight (trace t) = [] \<and> errors (trace t) = [] \<longrightarrow>
         (\<exists>rs. callbacks (trace t) = [Callback None (Some rs)] \<and> length rs = length a
            \<and> handed (trace t) = map Some a
            \<and> (\<forall>j < length a.
                  Start j (Some (a ! j)) \<in> set (trace t)
                \<and> Finish j None (rs ! j) \<in> set (trace t)
                \<and> (f (Some (a ! j)) j = Now None (rs ! j) \<or> (j, None, rs ! j) \<in> set evs))))
    \<and> (wfTrace (trace t) \<and> errors (trace t) \<noteq> [] \<longrightarrow>
         callbacks (trace t) = [Callback (Some (hd (errors (trace t)))) None])"
proof -
  let ?cl = "\<lparr> arr = a, limit = lmt, iterator = f \<rparr>"
  obtain t where run: "run a lmt f evs = Some t" and r: "reach ?cl evs (init ?cl) t"
    and q: "quiet ?cl t" by (rule run_facts)
  have ok: "\<exists>rs. callbacks (trace t) = [Callback None (Some rs)] \<and> length rs = length a
            \<and> handed (trace t) = map Some a
            \<and> (\<forall>j < length a.
                  Start j (Some (a ! j)) \<in> set (trace t)
                \<and> Finish j None (rs ! j) \<in> set (trace t)
                \<and> (f (Some (a ! j)) j = Now None (rs ! j) \<or> (j, None, rs ! j) \<in> set evs))"
    if wf: "wfTrace (trace t)" and fl: "inFlight (trace t) = []" and ne: "errors (trace t) = []"
  proof -
    from assms have lim: "1 \<le> limit ?cl" by simp
    note c = quiet_run_complete [OF r q wf fl ne lim]
    from inv_delivered [OF r] wf have d: "delivered ?cl t" by simp
    with ne c(2) have cb: "callbacks (trace t) = [Callback None (Some (results t))]"
      by (simp add: delivered_def)
    from inv_started [OF r] have len: "length (results t) = length a"
      and st: "started (trace t) = [0..<nexti t]" by simp_all
    from inv_handed [OF r] c(3) have "handed (trace t) = map (elemAt a) [0..<length a]"
      by simp
    then have hd: "handed (trace t) = map Some a"
      by (simp add: elemAt_upt)
    have item: "Start j (Some (a ! j)) \<in> set (trace t)
        \<and> Finish j None (results t ! j) \<in> set (trace t)
        \<and> (f (Some (a ! j)) j = Now None (results t ! j) \<or> (j, None, results t ! j) \<in> set evs)"
      if j: "j < length a" for j
    proof -
      have "[0..<length a] ! j = j" and "map Some a ! j = Some (a ! j)"
        using j by simp_all
      with j have "(j, Some (a ! j)) \<in> set (zip [0..<length a] (map Some a))"
        unfolding in_set_zip by (intro exI [of _ j]) simp
      then have s: "Start j (Some (a ! j)) \<in> set (trace t)"
        using st hd c(3) by (simp add: Start_handed)
      from j c(4) have "j \<in> set (finished (trace t))" by simp
      then obtain e r where m: "Finish j e r \<in> set (trace t)"
        using finished_Finish by blast
      with ne have "e = None" by (rule Finish_no_error)
      with m d have fin: "Finish j None (results t ! j) \<in> set (trace t)"
        by (auto simp: delivered_def)
      from inv_sources [OF r fin] j
      have "f (Some (a ! j)) j = Now None (results t ! j) \<or> (j, None, results t ! j) \<in> set evs"
        by (simp add: fromFetch_def elemAt_def)
      with s fin show ?thesis by blast
    qed
    from cb len hd item show ?thesis by blast
  qed
  have failed: "callbacks (trace t) = [Callback (Some (hd (errors (trace t)))) None]"
    if "wfTrace (trace t)" and "errors (trace t) \<noteq> []"
    using inv_delivered [OF r] that by (simp add: delivered_def)
  from run ok failed show ?thesis by blast
qed

text \<open>
  C4. Every execution returns, and the items are started in input order: the values
  handed to the iterator, in the order of the calls, are \<open>a[0], a[1], \<dots>\<close>, a prefix of the
  input. When every report belongs to a fetch in flight, at every moment of the
  execution (every prefix of the trace) at most \<open>limit\<close> fetches are in flight; and
  between two events, unless an error was reported, either every item has been
  started or exactly \<open>limit\<close> fetches are in flight.
\<close>

theorem in_flight_bounded:
  fixes f :: "'a option \<Rightarrow> nat \<Rightarrow> ('e, 'r) reply"
  shows "\<exists>t. run a lmt f evs = Some t
    \<and> started (trace t) = [0..<length (started (trace t))]
    \<and> handed (trace t) = map Some (take (length (started (trace t))) a)
    \<and> (wfTrace (trace t) \<longrightarrow>
         (\<forall>p \<le> length (trace t). length (inFlight (take p (trace t))) \<le> lmt)
       \<and> (errors (trace t) = [] \<longrightarrow>
            length (started (trace t)) = length a \<or> length (inFlight (trace t)) = lmt))"
proof -
  let ?cl = "\<lparr> arr = a, limit = lmt, iterator = f \<rparr>"
  obtain t where run: "run a lmt f evs = Some t" and r: "reach ?cl evs (init ?cl) t"
    and q: "quiet ?cl t" by (rule run_facts)
  from inv_started [OF r] have n: "nexti t \<le> length a"
    and st: "started (trace t) = [0..<nexti t]" by simp_all
  then have fifo: "started (trace t) = [0..<length (started (trace t))]" by simp
  from inv_handed [OF r] have "handed (trace t) = map (elemAt a) [0..<nexti t]" by simp
  with n st have items: "handed (trace t) = map Some (take (length (started (trace t))) a)"
    by (simp add: elemAt_upt)
  from inv_bounded [OF r] have b: "bounded lmt (trace t)" by simp
  have bound: "length (inFlight (take p (trace t))) \<le> lmt"
    if wf: "wfTrace (trace t)" and p: "p \<le> length (trace t)" for p
  proof -
    have "int (length (inFlight (take p (trace t)))) = diff (take p (trace t))"
      using wfTrace_take [OF wf] started_distinct_take [OF st] by (rule inFlight_length)
    also have "\<dots> \<le> int lmt"
      using b p by (simp add: bounded_def)
    finally show ?thesis by simp
  qed
  have topup: "length (started (trace t)) = length a \<or> length (inFlight (trace t)) = lmt"
    if wf: "wfTrace (trace t)" and ne: "errors (trace t) = []"
  proof -
    from inv_counts [OF r] have c: "completeN t = length (oks (trace t))"
      and qd: "queued t = int (nexti t) - int (length (oks (trace t)))"
      and ab: "aborted t \<longleftrightarrow> errors (trace t) \<noteq> []" by simp_all
    have fl: "int (length (inFlight (trace t))) = diff (trace t)"
      using wf by (rule inFlight_length) (simp add: st)
    from oks_finished [OF ne] qd st have qdiff: "queued t = diff (trace t)"
      by (simp add: diff_def)
    from wfTrace_finished [OF wf] have "card (set (finished (trace t))) \<le> card (set (started (trace t)))"
      by (intro card_mono) simp_all
    with wfTrace_finished [OF wf] st have "length (finished (trace t)) \<le> nexti t"
      by (simp add: distinct_card)
    with c oks_le_finished [of "trace t"] have cle: "completeN t \<le> nexti t" by simp
    from q ab ne have "completeN t = length a \<or> nexti t = length a \<or> int lmt \<le> queued t"
      by (auto simp: quiet_def)
    then show ?thesis
    proof (elim disjE)
      assume "completeN t = length a"
      with cle n have "nexti t = length a" by simp
      with st show ?thesis by simp
    next
      assume "nexti t = length a"
      with st show ?thesis by simp
    next
      assume "int lmt \<le> queued t"
      with qdiff bounded_last [OF b] fl show ?thesis by simp
    qed
  qed
  from run fifo items bound topup show ?thesis by blast
qed

text \<open>
  C5. Every execution returns, and no fetch is started after the first report of an
  error. The fetches in flight may still report; the final callback is called once
  only, with the first error and without results.
\<close>

theorem fail_fast:
  fixes f :: "'a option \<Rightarrow> nat \<Rightarrow> ('e, 'r) reply"
  shows "\<exists>t. run a lmt f evs = Some t
    \<and> startsAfterError (trace t) = []
    \<and> (wfTrace (trace t) \<and> errors (trace t) \<noteq> [] \<longrightarrow>
         callbacks (trace t) = [Callback (Some (hd (errors (trace t)))) None])"
proof -
  let ?cl = "\<lparr> arr = a, limit = lmt, iterator = f \<rparr>"
  obtain t where run: "run a lmt f evs = Some t" and r: "reach ?cl evs (init ?cl) t"
    and q: "quiet ?cl t" by (rule run_facts)
  have "callbacks (trace t) = [Callback (Some (hd (errors (trace t)))) None]"
    if "wfTrace (trace t)" and "errors (trace t) \<noteq> []"
    using inv_delivered [OF r] that by (simp add: delivered_def)
  with run inv_noStart [OF r] show ?thesis by blast
qed

theorem all_fetched_witness:
  "(1::nat) \<le> 2
   \<and> (\<exists>t. run [''a'', ''b'', ''c''] 2
            (\<lambda>a i. if i = 1 then Later else Now None a :: (string, string) reply)
            [(1, None, Some ''b'')] = Some t
        \<and> wfTrace (trace t) \<and> inFlight (trace t) = [] \<and> errors (trace t) = []
        \<and> handed (trace t) = [Some ''a'', Some ''b'', Some ''c'']
        \<and> callbacks (trace t) = [Callback None (Some [Some ''a'', Some ''b'', Some ''c''])])
   \<and> (\<exists>t. run [''a'', ''b'', ''c''] 2 (\<lambda>a i. Later :: (string, string) reply)
            [(1, Some ''E'', None), (0, None, Some ''A'')] = Some t
        \<and> wfTrace (trace t) \<and> errors (trace t) \<noteq> []
        \<and> callbacks (trace t) = [Callback (Some ''E'') None])"
proof -
  let ?e = "\<lambda>(a :: string option) (i :: nat). if i = 1 then Later else Now None a :: (string, string) reply"
  let ?f = "\<lambda>(a :: string option) (i :: nat). Later :: (string, string) reply"
  let ?ok = "run [''a'', ''b'', ''c''] 2 ?e [(1, None, Some ''b'')]"
  let ?ko = "run [''a'', ''b'', ''c''] 2 ?f [(1, Some ''E'', None), (0, None, Some ''A'')]"
  have h: "(1::nat) \<le> 2" by simp
  have e1: "map_option trace ?ok
      = Some [Start 0 (Some ''a''), Finish 0 None (Some ''a''), Start 1 (Some ''b''),
              Start 2 (Some ''c''), Finish 2 None (Some ''c''), Finish 1 None (Some ''b''),
              Callback None (Some [Some ''a'', Some ''b'', Some ''c''])]"
    by code_simp
  have e2: "map_option trace ?ko
      = Some [Start 0 (Some ''a''), Start 1 (Some ''b''), Finish 1 (Some ''E'') None,
              Callback (Some ''E'') None, Finish 0 None (Some ''A'')]"
    by code_simp
  from all_fetched [OF h, of "[''a'', ''b'', ''c'']" ?e "[(1, None, Some ''b'')]"]
  obtain t1 where t1: "?ok = Some t1"
    and i1: "wfTrace (trace t1) \<and> inFlight (trace t1) = [] \<and> errors (trace t1) = [] \<longrightarrow>
         (\<exists>rs. callbacks (trace t1) = [Callback None (Some rs)]
            \<and> handed (trace t1) = map Some [''a'', ''b'', ''c''])"
    by blast
  from e1 t1 have tr1: "trace t1
      = [Start 0 (Some ''a''), Finish 0 None (Some ''a''), Start 1 (Some ''b''),
         Start 2 (Some ''c''), Finish 2 None (Some ''c''), Finish 1 None (Some ''b''),
         Callback None (Some [Some ''a'', Some ''b'', Some ''c''])]"
    by simp
  have w1: "wfTrace (trace t1)" "inFlight (trace t1) = []" "errors (trace t1) = []"
    unfolding tr1 by (simp_all add: wfTrace_def inFlight_def)
  from i1 w1 obtain rs where "callbacks (trace t1) = [Callback None (Some rs)]"
    and h1: "handed (trace t1) = map Some [''a'', ''b'', ''c'']" by blast
  moreover have "callbacks (trace t1) = [Callback None (Some [Some ''a'', Some ''b'', Some ''c''])]"
    unfolding tr1 by simp
  ultimately have c1: "callbacks (trace t1) = [Callback None (Some [Some ''a'', Some ''b'', Some ''c''])]"
    by simp
  from h1 have h1': "handed (trace t1) = [Some ''a'', Some ''b'', Some ''c'']" by simp
  from all_fetched [OF h, of "[''a'', ''b'', ''c'']" ?f "[(1, Some ''E'', None), (0, None, Some ''A'')]"]
  obtain t2 where t2: "?ko = Some t2"
    and i2: "wfTrace (trace t2) \<and> errors (trace t2) \<noteq> [] \<longrightarrow>
         callbacks (trace t2) = [Callback (Some (hd (errors (trace t2)))) None]"
    by blast
  from e2 t2 have tr2: "trace t2 = [Start 0 (Some ''a''), Start 1 (Some ''b''),
      Finish 1 (Some ''E'') None, Callback (Some ''E'') None, Finish 0 None (Some ''A'')]"
    by simp
  have w2: "wfTrace (trace t2)" "errors (trace t2) \<noteq> []" "hd (errors (trace t2)) = ''E''"
    unfolding tr2 by (simp_all add: wfTrace_def)
  from i2 w2 have c2: "callbacks (trace t2) = [Callback (Some ''E'') None]" by simp
  from h t1 w1 h1' c1 t2 w2(1,2) c2 show ?thesis by blast
qed

theorem in_flight_bounded_witness:
  "\<exists>t. run [''a'', ''b'', ''c''] 2 (\<lambda>a i. Later :: (string, string) reply)
            [(1, None, Some ''B''), (0, None, Some ''A''), (2, None, Some ''C'')] = Some t
        \<and> wfTrace (trace t) \<and> errors (trace t) = [] \<and> started (trace t) = [0, 1, 2]
        \<and> handed (trace t) = [Some ''a'', Some ''b'', Some ''c'']
        \<and> (\<forall>p \<le> length (trace t). length (inFlight (take p (trace t))) \<le> 2)"
proof -
  let ?f = "\<lambda>(a :: string option) (i :: nat). Later :: (string, string) reply"
  let ?ok = "run [''a'', ''b'', ''c''] 2 ?f [(1, None, Some ''B''), (0, None, Some ''A''), (2, None, Some ''C'')]"
  have e1: "map_option trace ?ok
      = Some [Start 0 (Some ''a''), Start 1 (Some ''b''), Finish 1 None (Some ''B''),
              Start 2 (Some ''c''), Finish 0 None (Some ''A''), Finish 2 None (Some ''C''),
              Callback None (Some [Some ''A'', Some ''B'', Some ''C''])]"
    by code_simp
  from in_flight_bounded [of "[''a'', ''b'', ''c'']" 2 ?f
      "[(1, None, Some ''B''), (0, None, Some ''A''), (2, None, Some ''C'')]"]
  obtain t where t: "?ok = Some t"
    and i: "wfTrace (trace t) \<longrightarrow>
         (\<forall>p \<le> length (trace t). length (inFlight (take p (trace t))) \<le> 2)
       \<and> (errors (trace t) = [] \<longrightarrow>
            length (started (trace t)) = length [''a'', ''b'', ''c''] \<or> length (inFlight (trace t)) = 2)"
    by blast
  from e1 t have tr: "trace t
      = [Start 0 (Some ''a''), Start 1 (Some ''b''), Finish 1 None (Some ''B''),
         Start 2 (Some ''c''), Finish 0 None (Some ''A''), Finish 2 None (Some ''C''),
         Callback None (Some [Some ''A'', Some ''B'', Some ''C''])]"
    by simp
  have w: "wfTrace (trace t)" "errors (trace t) = []" "started (trace t) = [0, 1, 2]"
    "handed (trace t) = [Some ''a'', Some ''b'', Some ''c'']"
    unfolding tr by (simp_all add: wfTrace_def)
  from i w(1) have "\<forall>p \<le> length (trace t). length (inFlight (take p (trace t))) \<le> 2" by blast
  with t w show ?thesis by blast
qed

theorem fail_fast_witness:
  "\<exists>t. run [''a'', ''b'', ''c''] 2 (\<lambda>a i. Later :: (string, string) reply)
            [(1, Some ''E'', None), (0, None, Some ''A'')] = Some t
        \<and> wfTrace (trace t) \<and> errors (trace t) = [''E''] \<and> started (trace t) = [0, 1]
        \<and> startsAfterError (trace t) = []
        \<and> callbacks (trace t) = [Callback (Some ''E'') None]"
proof -
  let ?f = "\<lambda>(a :: string option) (i :: nat). Later :: (string, string) reply"
  let ?ko = "run [''a'', ''b'', ''c''] 2 ?f [(1, Some ''E'', None), (0, None, Some ''A'')]"
  have e2: "map_option trace ?ko
      = Some [Start 0 (Some ''a''), Start 1 (Some ''b''), Finish 1 (Some ''E'') None,
              Callback (Some ''E'') None, Finish 0 None (Some ''A'')]"
    by code_simp
  from fail_fast [of "[''a'', ''b'', ''c'']" 2 ?f "[(1, Some ''E'', None), (0, None, Some ''A'')]"]
  obtain t where t: "?ko = Some t" and s: "startsAfterError (trace t) = []"
    and i: "wfTrace (trace t) \<and> errors (trace t) \<noteq> [] \<longrightarrow>
         callbacks (trace t) = [Callback (Some (hd (errors (trace t)))) None]"
    by blast
  from e2 t have tr: "trace t = [Start 0 (Some ''a''), Start 1 (Some ''b''),
      Finish 1 (Some ''E'') None, Callback (Some ''E'') None, Finish 0 None (Some ''A'')]"
    by simp
  have w: "wfTrace (trace t)" "errors (trace t) = [''E'']" "started (trace t) = [0, 1]"
    unfolding tr by (simp_all add: wfTrace_def)
  from i w have "callbacks (trace t) = [Callback (Some ''E'') None]" by simp
  with t s w show ?thesis by blast
qed

end
